theory Spec2Isabelle
  imports Complex_Main "HOL-Library.Multiset" "HOL-Library.List_Lexorder" "HOL-Library.Char_ord"
begin

section \<open>Clause extraction from positioned text lines (extract\_clauses.py)\<close>

text \<open>
  A shallow embedding of the structure-recovery core of \<^verbatim>\<open>src/src/extract_clauses.py\<close>:
  \<^verbatim>\<open>Line\<close> and its derived signals, the noise filter, \<^verbatim>\<open>find_headings\<close>,
  \<^verbatim>\<open>build_clauses\<close>, \<^verbatim>\<open>Clause.text\<close> and \<^verbatim>\<open>extract_pdf_clauses\<close>.

  Conventions of the model.
  \<^item> A Python \<^verbatim>\<open>str\<close> is a \<^typ>\<open>string\<close>. An ASCII code point is the character itself;
    the two non-ASCII characters the source names (en dash U+2013, bullet U+2022) are
    written as the three bytes of their UTF-8 encoding. The character classes
    (\<^verbatim>\<open>str.isspace\<close>, \<^verbatim>\<open>\s\<close>, \<^verbatim>\<open>\d\<close>, \<^verbatim>\<open>str.isdigit\<close>, \<^verbatim>\<open>str.islower\<close>,
    \<^verbatim>\<open>re.IGNORECASE\<close>) are those of CPython on the ASCII range, so the model is the
    program on ASCII text.
  \<^item> A Python \<^verbatim>\<open>float\<close> (font size, position, bold ratio) is a \<^typ>\<open>real\<close>: the code
    only compares these values with constants and subtracts two of them.
  \<^item> \<^verbatim>\<open>int(part)\<close> on a digit string is total (CPython's optional limit on the length
    of a converted digit string is not modelled).
\<close>

subsection \<open>Python string operations\<close>

text \<open>\<^verbatim>\<open>str.isspace\<close> and the regex class \<^verbatim>\<open>\s\<close> on ASCII: 9-13, 28-31 and 32.\<close>

definition isspace :: "char \<Rightarrow> bool" where
  "isspace c = (c \<in> set [CHR 0x09, CHR 0x0A, CHR 0x0B, CHR 0x0C, CHR 0x0D,
                           CHR 0x1C, CHR 0x1D, CHR 0x1E, CHR 0x1F, CHR 0x20])"

text \<open>The regex class \<^verbatim>\<open>\d\<close> and \<^verbatim>\<open>str.isdigit\<close> on a single ASCII character.\<close>

definition isdigit :: "char \<Rightarrow> bool" where
  "isdigit c = (c \<in> set ''0123456789'')"

definition islower :: "char \<Rightarrow> bool" where
  "islower c = (c \<in> set ''abcdefghijklmnopqrstuvwxyz'')"

definition isupper :: "char \<Rightarrow> bool" where
  "isupper c = (c \<in> set ''ABCDEFGHIJKLMNOPQRSTUVWXYZ'')"

text \<open>Case folding of one character, as \<^verbatim>\<open>re.IGNORECASE\<close> compares ASCII letters.\<close>

definition lower :: "char \<Rightarrow> char" where
  "lower c = (case map_of (zip ''ABCDEFGHIJKLMNOPQRSTUVWXYZ'' ''abcdefghijklmnopqrstuvwxyz'') c of
                Some l \<Rightarrow> l | None \<Rightarrow> c)"

text \<open>\<^verbatim>\<open>s.strip()\<close>: leading and trailing whitespace removed.\<close>

definition strip :: "string \<Rightarrow> string" where
  "strip s = rev (dropWhile isspace (rev (dropWhile isspace s)))"

text \<open>\<^verbatim>\<open>s.split()\<close>: the maximal runs of non-whitespace characters, in order.\<close>

fun split_ws_aux :: "string \<Rightarrow> string \<Rightarrow> string list" where
  "split_ws_aux cur [] = (if cur = [] then [] else [cur])"
| "split_ws_aux cur (c # cs) =
     (if isspace c then (if cur = [] then split_ws_aux [] cs else cur # split_ws_aux [] cs)
      else split_ws_aux (cur @ [c]) cs)"

definition split_ws :: "string \<Rightarrow> string list" where
  "split_ws s = split_ws_aux [] s"

text \<open>\<^verbatim>\<open>s.split(d)\<close> for a one-character separator: always at least one part.\<close>

fun split_on_aux :: "char \<Rightarrow> string \<Rightarrow> string \<Rightarrow> string list" where
  "split_on_aux d cur [] = [cur]"
| "split_on_aux d cur (c # cs) =
     (if c = d then cur # split_on_aux d [] cs else split_on_aux d (cur @ [c]) cs)"

definition split_on :: "char \<Rightarrow> string \<Rightarrow> string list" where
  "split_on d s = split_on_aux d [] s"

text \<open>\<^verbatim>\<open>sep.join(parts)\<close>.\<close>

fun join :: "string \<Rightarrow> string list \<Rightarrow> string" where
  "join sep [] = []"
| "join sep [x] = x"
| "join sep (x # y # ys) = x @ sep @ join sep (y # ys)"

definition startswith :: "string \<Rightarrow> string \<Rightarrow> bool" where
  "startswith s p = (take (length p) s = p)"

definition endswith :: "string \<Rightarrow> string \<Rightarrow> bool" where
  "endswith s p = (length p \<le> length s \<and> drop (length s - length p) s = p)"

text \<open>\<^verbatim>\<open>sub in s\<close>: \<open>sub\<close> occurs in \<open>s\<close> as a contiguous substring.\<close>

fun contains :: "string \<Rightarrow> string \<Rightarrow> bool" where
  "contains [] sub = (sub = [])"
| "contains (c # cs) sub = (startswith (c # cs) sub \<or> contains cs sub)"

subsection \<open>Lines and their derived signals\<close>

record TextChunk =
  chunk_page :: int
  chunk_top :: real
  left :: real
  width :: real
  chunk_text :: string
  font_size :: real
  is_bold :: bool

record Line =
  page :: int
  line_top :: real
  chunks :: "TextChunk list"

text \<open>
  \<^verbatim>\<open>Line.sort_chunks\<close> sorts the chunk list in place by \<^verbatim>\<open>left\<close> (a stable sort); it is
  the one mutation of a line, made by every call of \<^verbatim>\<open>Line.text\<close>.
\<close>

definition sort_chunks :: "Line \<Rightarrow> Line" where
  "sort_chunks l = l\<lparr>chunks := sort_key left (chunks l)\<rparr>"

text \<open>
  The loop of \<^verbatim>\<open>Line.text\<close> over the sorted chunks, with \<^verbatim>\<open>last_right\<close> as an argument:
  a chunk with empty text is passed over; a gap of more than 1.5 to the previous chunk
  puts a space before the chunk's text.
\<close>

fun text_parts :: "real option \<Rightarrow> TextChunk list \<Rightarrow> string list" where
  "text_parts last_right [] = []"
| "text_parts last_right (c # cs) =
     (if chunk_text c = [] then text_parts last_right cs
      else (case last_right of
              None \<Rightarrow> []
            | Some r \<Rightarrow> (if left c - r > 1.5 then ['' ''] else []))
           @ [chunk_text c] @ text_parts (Some (left c + width c)) cs)"

definition line_text :: "Line \<Rightarrow> string" where
  "line_text l = concat (text_parts None (chunks (sort_chunks l)))"

definition cleaned_text :: "Line \<Rightarrow> string" where
  "cleaned_text l = join '' '' (split_ws (line_text l))"

definition max_font_size :: "Line \<Rightarrow> real" where
  "max_font_size l = (case map font_size (chunks l) of [] \<Rightarrow> 0 | x # xs \<Rightarrow> fold max xs x)"

definition bold_ratio :: "Line \<Rightarrow> real" where
  "bold_ratio l =
     (let total = sum_list (map (\<lambda>c. length (strip (chunk_text c)))
                    (filter (\<lambda>c. strip (chunk_text c) \<noteq> []) (chunks l)))
      in if total = 0 then 0
         else real (sum_list (map (\<lambda>c. length (strip (chunk_text c)))
                    (filter (\<lambda>c. is_bold c \<and> strip (chunk_text c) \<noteq> []) (chunks l))))
              / real total)"

subsection \<open>The heading pattern\<close>

text \<open>\<^verbatim>\<open>\d+(?:\.\d+)*\<close> matching a whole string: non-empty digit runs separated by dots.\<close>

definition dotted_numeric :: "string \<Rightarrow> bool" where
  "dotted_numeric s = list_all (\<lambda>p. p \<noteq> [] \<and> list_all isdigit p) (split_on CHR ''.'' s)"

text \<open>
  \<^verbatim>\<open>HEADING_RE.match(text)\<close> for \<^verbatim>\<open>^(\d+(?:\.\d+)*)(?:\s+(.*\S))?$\<close>: the result is
  \<open>None\<close> when there is no match, else the groups 1 and 2 (group 2 is \<open>None\<close> when the
  optional part did not take part in the match).
  Group 1 is followed by whitespace or the end, so it is the longest prefix of digits and
  dots; \<^verbatim>\<open>\s+\<close> takes the whole whitespace run; \<^verbatim>\<open>.*\S\<close> takes the rest, which has no
  newline and ends in a non-space character; \<^verbatim>\<open>$\<close> is the end of the string or the
  position before one final newline.
\<close>

definition heading_match :: "string \<Rightarrow> (string \<times> string option) option" where
  "heading_match s =
     (let numeric = (\<lambda>c. isdigit c \<or> c = CHR ''.'');
          ident = takeWhile numeric s;
          rest = dropWhile numeric s
      in if \<not> dotted_numeric ident then None
         else if rest = [] \<or> rest = [CHR 0x0A] then Some (ident, None)
         else if \<not> isspace (hd rest) then None
         else (let r = dropWhile isspace rest;
                   body = (if r \<noteq> [] \<and> last r = CHR 0x0A then butlast r else r)
               in if body \<noteq> [] \<and> CHR 0x0A \<notin> set body \<and> \<not> isspace (last body)
                  then Some (ident, Some body) else None))"

text \<open>The truth value of the match object, as in \<^verbatim>\<open>if HEADING_RE.match(text):\<close>.\<close>

definition heading_re_matches :: "string \<Rightarrow> bool" where
  "heading_re_matches s = (heading_match s \<noteq> None)"

subsection \<open>The noise filter\<close>

definition en_dash :: string where
  "en_dash = [CHR 0xE2, CHR 0x80, CHR 0x93]"

definition bullet :: string where
  "bullet = [CHR 0xE2, CHR 0x80, CHR 0xA2]"

text \<open>A pattern \<^verbatim>\<open>^literal\<close> compiled with \<^verbatim>\<open>re.IGNORECASE\<close>, searched in \<open>s\<close>.\<close>

definition prefix_ci :: "string \<Rightarrow> string \<Rightarrow> bool" where
  "prefix_ci p s = (map lower (take (length p) s) = map lower p)"

text \<open>\<^verbatim>\<open>^E\s*\d+\s*E\<close> where \<open>E\<close> is the en dash: the page-number banner.\<close>

definition page_banner :: "string \<Rightarrow> bool" where
  "page_banner s =
     (startswith s en_dash \<and>
      (let r1 = dropWhile isspace (drop (length en_dash) s);
           r2 = dropWhile isspace (dropWhile isdigit r1)
       in takeWhile isdigit r1 \<noteq> [] \<and> startswith r2 en_dash))"

text \<open>\<^verbatim>\<open>^--[`',.-]{5,}\<close>: two dashes at the start, then at least five separator characters.\<close>

definition separator_stamp :: "string \<Rightarrow> bool" where
  "separator_stamp s =
     (startswith s ''--'' \<and> 5 \<le> length (takeWhile (\<lambda>c. c \<in> set [CHR 0x60, CHR 0x27, CHR '','', CHR ''.'', CHR ''-'']) (drop 2 s)))"

definition SKIP_PATTERNS :: "(string \<Rightarrow> bool) list" where
  "SKIP_PATTERNS =
     [prefix_ci ''copyright british standards institution'',
      prefix_ci ''provided by accuris'',
      prefix_ci ''licensee='',
      prefix_ci ''not for resale'',
      prefix_ci ''no reproduction or networking permitted'',
      prefix_ci ''bs en '',
      prefix_ci ''iec 61513'',
      prefix_ci ''61513'',
      prefix_ci ''raising standards worldwide'',
      page_banner,
      separator_stamp]"

text \<open>\<^verbatim>\<open>w.isdigit()\<close> on a string: non-empty and all digits.\<close>

definition str_isdigit :: "string \<Rightarrow> bool" where
  "str_isdigit w = (w \<noteq> [] \<and> list_all isdigit w)"

definition should_skip_line :: "string \<Rightarrow> bool" where
  "should_skip_line text =
     (let stripped = strip text
      in if stripped = [] then False
         else if contains stripped ''...'' \<and> str_isdigit (last (split_ws stripped)) then True
         else if contains stripped [CHR ''-'', CHR ''-'', CHR 0x60, CHR 0x60, CHR 0x60] then True
         else list_ex (\<lambda>pattern. pattern stripped) SKIP_PATTERNS)"

definition looks_like_fragment :: "Line \<Rightarrow> string \<Rightarrow> bool" where
  "looks_like_fragment line text =
     (if text = [] then False
      else if bold_ratio line > 0 then False
      else if list_ex (startswith text) [bullet, en_dash, ''-'', ''('', '')''] then False
      else if list_ex (\<lambda>ch. ch \<in> set text) ''.,;:!?'' then False
      else (let words = split_ws text
            in if length words \<le> 1 then False else length words \<le> 6))"

text \<open>
  The verdict of the noise filter on a line, as \<^verbatim>\<open>build_clauses\<close> applies its two tests
  to the line's cleaned text.
\<close>

definition noise_dropped :: "Line \<Rightarrow> bool" where
  "noise_dropped l =
     (let text = cleaned_text l in should_skip_line text \<or> looks_like_fragment l text)"

definition noise_filter :: "Line list \<Rightarrow> Line list" where
  "noise_filter ls = filter (\<lambda>l. \<not> noise_dropped l) ls"

text \<open>
  The line \<^verbatim>\<open>_text_line_to_line\<close> returns: one chunk that carries the whole text line.
\<close>

definition one_chunk_line :: "int \<Rightarrow> real \<Rightarrow> real \<Rightarrow> real \<Rightarrow> string \<Rightarrow> real \<Rightarrow> bool \<Rightarrow> Line" where
  "one_chunk_line page_number y x0 w txt sz bold =
     \<lparr>page = page_number, line_top = y,
      chunks = [\<lparr>chunk_page = page_number, chunk_top = y, left = x0, width = w,
                 chunk_text = txt, font_size = sz, is_bold = bold\<rparr>]\<rparr>"

text \<open>
  The reading of the separator rule in the specification: somewhere in the text there are
  five consecutive characters, each a backtick, a comma or a dash.
\<close>

definition is_separator :: "char \<Rightarrow> bool" where
  "is_separator c = (c \<in> set [CHR 0x60, CHR '','', CHR ''-''])"

definition spec_separator_run :: "string \<Rightarrow> bool" where
  "spec_separator_run s =
     list_ex (\<lambda>k. k + 5 \<le> length s \<and> list_all is_separator (take 5 (drop k s))) [0..<length s]"

subsection \<open>find\_headings\<close>

record Heading =
  heading_identifier :: string
  heading_title :: string
  line_index :: nat
  line_count :: nat

text \<open>
  The inner loop of \<^verbatim>\<open>find_headings\<close> (the title lookahead) from index \<open>j\<close>, with the
  running values of \<^verbatim>\<open>consumed\<close> and \<^verbatim>\<open>title_parts\<close>; it returns their final values.
\<close>

function lookahead :: "Line list \<Rightarrow> nat \<Rightarrow> nat \<Rightarrow> string list \<Rightarrow> nat \<times> string list" where
  "lookahead lines j consumed title_parts =
     (if j < length lines then
        (let candidate = lines ! j;
             candidate_text = cleaned_text candidate
         in if candidate_text = [] then lookahead lines (j + 1) (consumed + 1) title_parts
            else if max_font_size candidate \<ge> 14 \<and> bold_ratio candidate \<ge> 0.5 then
              (if heading_re_matches candidate_text then (consumed, title_parts)
               else lookahead lines (j + 1) (consumed + 1) (title_parts @ [candidate_text]))
            else (consumed, title_parts))
      else (consumed, title_parts))"
  by pat_completeness auto
termination
proof (relation "measure (\<lambda>(lines, j, consumed, title_parts). length lines - j)", goal_cases)
  case 1
  show ?case by (rule wf_measure)
next
  case (2 lines j consumed title_parts x xa)
  from 2(1) show ?case by (simp only: in_measure prod.case)
next
  case (3 lines j consumed title_parts x xa)
  from 3(1) show ?case by (simp only: in_measure prod.case)
qed

declare lookahead.simps [simp del]

text \<open>
  The values of \<^verbatim>\<open>consumed\<close> and \<^verbatim>\<open>title\<close> after the title has been read for a candidate
  at index \<open>i\<close> whose same-line remainder is \<open>remainder\<close>.
\<close>

definition read_title :: "Line list \<Rightarrow> nat \<Rightarrow> string \<Rightarrow> nat \<times> string" where
  "read_title lines i remainder =
     (if remainder = [] then
        (let (consumed, title_parts) = lookahead lines (i + 1) 1 []
         in (consumed, strip (join '' '' title_parts)))
      else (1, remainder))"

lemma lookahead_consumed_ge: "consumed \<le> fst (lookahead lines j consumed title_parts)"
proof (induction lines j consumed title_parts rule: lookahead.induct)
  case (1 lines j consumed title_parts)
  show ?case
  proof (cases "j < length lines")
    case False
    then show ?thesis by (subst lookahead.simps) simp
  next
    case True
    let ?t = "cleaned_text (lines ! j)"
    have a: "?t = [] \<Longrightarrow> consumed \<le> fst (lookahead lines (j + 1) (consumed + 1) title_parts)"
      using "1.IH"(1) [OF True refl refl] by simp
    have b: "?t \<noteq> [] \<Longrightarrow> max_font_size (lines ! j) \<ge> 14 \<and> bold_ratio (lines ! j) \<ge> 0.5
        \<Longrightarrow> \<not> heading_re_matches ?t
        \<Longrightarrow> consumed \<le> fst (lookahead lines (j + 1) (consumed + 1) (title_parts @ [?t]))"
      using "1.IH"(2) [OF True refl refl] by simp
    show ?thesis
      using True a b by (subst lookahead.simps) (auto simp: Let_def)
  qed
qed

lemma read_title_consumed_ge: "1 \<le> fst (read_title lines i remainder)"
  using lookahead_consumed_ge [of 1 lines "i + 1" "[]"]
  by (auto simp: read_title_def split: prod.splits)

lemma read_title_decreases:
  "i < length lines \<Longrightarrow> length lines - (i + fst (read_title lines i remainder)) < length lines - i"
  using read_title_consumed_ge [of lines i remainder] by arith

text \<open>
  The outer loop of \<^verbatim>\<open>find_headings\<close> from index \<open>i\<close>; the headings appended from there on,
  in order.
\<close>

function find_headings_from :: "Line list \<Rightarrow> nat \<Rightarrow> Heading list" where
  "find_headings_from lines i =
     (if i < length lines then
        (let line = lines ! i;
             text = cleaned_text line
         in if text = [] then find_headings_from lines (i + 1)
            else (case heading_match text of
                    None \<Rightarrow> find_headings_from lines (i + 1)
                  | Some (ident, group2) \<Rightarrow>
                      if max_font_size line < 14 \<or> bold_ratio line < 0.5
                      then find_headings_from lines (i + 1)
                      else (let remainder = strip (case group2 of None \<Rightarrow> [] | Some g \<Rightarrow> g);
                                consumed = fst (read_title lines i remainder);
                                ttl = snd (read_title lines i remainder)
                            in if ttl = [] \<and> CHR ''.'' \<notin> set ident
                               then find_headings_from lines (i + consumed)
                               else \<lparr>heading_identifier = ident, heading_title = ttl, line_index = i,
                                     line_count = consumed\<rparr>
                                    # find_headings_from lines (i + consumed))))
      else [])"
  by pat_completeness auto
termination
proof (relation "measure (\<lambda>(lines, i). length lines - i)", goal_cases)
  case 1
  show ?case by (rule wf_measure)
next
  case (2 lines i x xa)
  from 2(1) show ?case by (simp only: in_measure prod.case)
next
  case (3 lines i x xa)
  from 3(1) show ?case by (simp only: in_measure prod.case)
next
  case (4 lines i x xa x2 xaa y)
  from 4(1) show ?case by (simp only: in_measure prod.case)
next
  case (5 lines i x xa x2 xaa y xb xc xd)
  from 5(1) have "length lines - (i + fst (read_title lines i xb)) < length lines - i"
    by (rule read_title_decreases)
  with 5(9) show ?case by (simp only: in_measure prod.case)
next
  case (6 lines i x xa x2 xaa y xb xc xd)
  from 6(1) have "length lines - (i + fst (read_title lines i xb)) < length lines - i"
    by (rule read_title_decreases)
  with 6(9) show ?case by (simp only: in_measure prod.case)
qed

declare find_headings_from.simps [simp del]

definition find_headings :: "Line list \<Rightarrow> Heading list" where
  "find_headings lines = find_headings_from lines 0"

subsection \<open>Clause.text: paragraphs from body lines\<close>

text \<open>
  One iteration of the loop of \<^verbatim>\<open>Clause.text\<close> on the pair \<open>(paragraphs, buffer)\<close>:
  an empty line flushes a non-empty buffer; a line after a buffer whose last entry ends
  with a hyphen, and whose first character is lower-case, replaces that entry by the
  entry without its last character followed by the line; any other line is appended.
\<close>

fun text_step :: "string list \<times> string list \<Rightarrow> string \<Rightarrow> string list \<times> string list" where
  "text_step (paragraphs, buffer) line =
     (if line = [] then
        (if buffer \<noteq> [] then (paragraphs @ [strip (join '' '' buffer)], [])
         else (paragraphs, buffer))
      else if buffer \<noteq> [] \<and> endswith (last buffer) ''-'' \<and> line \<noteq> [] \<and> islower (hd line) then
        (paragraphs, butlast buffer @ [butlast (last buffer) @ line])
      else if buffer \<noteq> [] then (paragraphs, buffer @ [line])
      else (paragraphs, buffer @ [line]))"

definition text_loop :: "string list \<Rightarrow> string list \<times> string list" where
  "text_loop body = foldl text_step ([], []) body"

definition clause_text :: "string list \<Rightarrow> string" where
  "clause_text body =
     (let (paragraphs, buffer) = text_loop body;
          paragraphs' = (if buffer \<noteq> [] then paragraphs @ [strip (join '' '' buffer)]
                         else paragraphs)
      in join [CHR 0x0A, CHR 0x0A] (filter (\<lambda>p. p \<noteq> []) paragraphs'))"

subsection \<open>build\_clauses\<close>

text \<open>
  A \<^verbatim>\<open>Clause\<close> object. The objects live in the store \<^verbatim>\<open>clause_by_id\<close>, which holds one
  object per identifier; \<^verbatim>\<open>children\<close> and the root list \<^verbatim>\<open>clauses\<close> refer to an object
  by its identifier, so that appending to a parent's \<^verbatim>\<open>children\<close> or to a clause's
  \<^verbatim>\<open>body_lines\<close> is seen through every reference to it.
\<close>

record Clause =
  clause_identifier :: string
  clause_title :: string
  body_lines :: "string list"
  children :: "string list"

type_synonym clause_store = "string \<Rightarrow> Clause option"

text \<open>The mutation of the object stored under \<open>k\<close>.\<close>

definition update_clause :: "clause_store \<Rightarrow> string \<Rightarrow> (Clause \<Rightarrow> Clause) \<Rightarrow> clause_store" where
  "update_clause by_id k f = (case by_id k of None \<Rightarrow> by_id | Some c \<Rightarrow> by_id(k \<mapsto> f c))"

text \<open>\<^verbatim>\<open>prev_top or line.top\<close>: the right operand when the left one is None or 0.0.\<close>

definition float_or :: "real option \<Rightarrow> real \<Rightarrow> real" where
  "float_or a b = (case a of None \<Rightarrow> b | Some x \<Rightarrow> (if x = 0 then b else x))"

text \<open>
  One iteration of the body loop of \<^verbatim>\<open>build_clauses\<close> on the lines appended so far and the
  variables \<^verbatim>\<open>prev_top\<close> and \<^verbatim>\<open>prev_page\<close>.
\<close>

fun body_step :: "string list \<times> real option \<times> int option \<Rightarrow> Line
    \<Rightarrow> string list \<times> real option \<times> int option" where
  "body_step (body, prev_top, prev_page) line =
     (let text = cleaned_text line
      in if should_skip_line text then (body, prev_top, prev_page)
         else if heading_re_matches text then (body, prev_top, prev_page)
         else if looks_like_fragment line text then (body, prev_top, prev_page)
         else (let body1 = (case prev_page of
                              None \<Rightarrow> body
                            | Some pp \<Rightarrow>
                                (if page line \<noteq> pp \<or> line_top line - float_or prev_top (line_top line) > 18
                                 then body @ [[]] else body));
                   body2 = (if text \<noteq> [] then body1 @ [text] else body1 @ [[]])
               in (body2, Some (line_top line), Some (page line))))"

text \<open>
  The lines appended for \<^verbatim>\<open>range(start, end)\<close>. The spans of the headings keep this range
  within the line sequence (see the section on heading spans), so every read is in range.
\<close>

definition scan_body :: "Line list \<Rightarrow> nat \<Rightarrow> nat \<Rightarrow> string list" where
  "scan_body lines start end_index =
     fst (foldl body_step ([], None, None) (map (\<lambda>k. lines ! k) [start..<end_index]))"

text \<open>\<^verbatim>\<open>".".join(identifier.split(".")[:-1])\<close>.\<close>

definition parent_id_of :: "string \<Rightarrow> string" where
  "parent_id_of ident = join ''.'' (butlast (split_on CHR ''.'' ident))"

text \<open>
  The body of the loop over the headings for a heading whose identifier is not yet in
  \<^verbatim>\<open>clause_by_id\<close>; \<open>end_index\<close> is the start of the next heading or the number of lines.
\<close>

definition process_heading :: "Line list \<Rightarrow> Heading \<Rightarrow> nat
    \<Rightarrow> string list \<times> clause_store \<Rightarrow> string list \<times> clause_store" where
  "process_heading lines heading end_index st =
     (let clauses = fst st;
          ident = heading_identifier heading;
          clause = \<lparr>clause_identifier = ident, clause_title = heading_title heading,
                     body_lines = [], children = []\<rparr>;
          by_id1 = (snd st)(ident \<mapsto> clause);
          attached =
            (if CHR ''.'' \<in> set ident then
               (case by_id1 (parent_id_of ident) of
                  Some parent \<Rightarrow>
                    (clauses, update_clause by_id1 (parent_id_of ident)
                                (\<lambda>c. c\<lparr>children := children c @ [ident]\<rparr>))
                | None \<Rightarrow> (clauses @ [ident], by_id1))
             else (clauses @ [ident], by_id1));
          start = line_index heading + line_count heading;
          appended = scan_body lines start end_index
      in (fst attached,
          update_clause (snd attached) ident (\<lambda>c. c\<lparr>body_lines := body_lines c @ appended\<rparr>)))"

fun build_loop :: "Line list \<Rightarrow> Heading list \<Rightarrow> string list \<times> clause_store
    \<Rightarrow> string list \<times> clause_store" where
  "build_loop lines [] st = st"
| "build_loop lines (heading # rest) st =
     (if snd st (heading_identifier heading) \<noteq> None then build_loop lines rest st
      else build_loop lines rest
             (process_heading lines heading
                (case rest of [] \<Rightarrow> length lines | next_heading # _ \<Rightarrow> line_index next_heading)
                st))"

text \<open>\<^verbatim>\<open>int(part)\<close> on a string of ASCII digits.\<close>

definition digit_value :: "char \<Rightarrow> int" where
  "digit_value c = (case map_of (zip ''0123456789'' [0, 1, 2, 3, 4, 5, 6, 7, 8, 9]) c of
                      Some v \<Rightarrow> v | None \<Rightarrow> 0)"

definition py_int :: "string \<Rightarrow> int" where
  "py_int part = foldl (\<lambda>a c. 10 * a + digit_value c) 0 part"

text \<open>The sort key \<^verbatim>\<open>[int(part) for part in c.identifier.split(".")]\<close>.\<close>

definition clause_key :: "string \<Rightarrow> int list" where
  "clause_key ident = map py_int (split_on CHR ''.'' ident)"

text \<open>
  \<^verbatim>\<open>build_clauses\<close>: the identifiers of the ordered root clauses, and the store that holds
  every clause. Lists of integers compare as in Python (lexicographically, a proper prefix
  first), and \<^verbatim>\<open>list.sort\<close> is stable, as \<^const>\<open>sort_key\<close> is.
\<close>

definition build_clauses :: "Line list \<Rightarrow> string list \<times> clause_store" where
  "build_clauses lines =
     (let headings = find_headings lines;
          built = build_loop lines headings ([], Map.empty);
          ordered_clauses =
            filter (\<lambda>c. CHR ''.'' \<notin> set c
                        \<or> count_list c CHR ''.'' = length (split_on CHR ''.'' c) - 1) (fst built)
      in (sort_key clause_key ordered_clauses, snd built))"

subsection \<open>extract\_pdf\_clauses\<close>

datatype error = FileNotFoundError | PermissionError string | ValueError string

text \<open>
  What \<^verbatim>\<open>extract_lines_from_pdf\<close> does on a path that exists: it raises one of the two
  exceptions the caller handles, or returns the sorted lines.
\<close>

datatype extraction = PDFTextExtractionNotAllowed | PDFSyntaxError string | Extracted "Line list"

definition extract_pdf_clauses :: "bool \<Rightarrow> extraction \<Rightarrow> error + string list \<times> clause_store" where
  "extract_pdf_clauses path_exists extracted =
     (if \<not> path_exists then Inl FileNotFoundError
      else (case extracted of
              PDFTextExtractionNotAllowed \<Rightarrow>
                Inl (PermissionError ''Text extraction is not permitted for this PDF.'')
            | PDFSyntaxError exc \<Rightarrow> Inl (ValueError (''Failed to parse PDF structure: '' @ exc))
            | Extracted lines \<Rightarrow>
                (if lines = [] then Inl (ValueError ''No text extracted from PDF.'')
                 else (let clauses = build_clauses lines
                       in if fst clauses = []
                          then Inl (ValueError ''No clauses were detected in the document.'')
                          else Inr clauses))))"

subsection \<open>De-hyphenation\<close>

lemma endswith_hyphen: "endswith s ''-'' \<longleftrightarrow> s \<noteq> [] \<and> last s = CHR ''-''"
proof (cases s rule: rev_cases)
  case Nil
  then show ?thesis by (simp add: endswith_def)
next
  case (snoc ys y)
  then show ?thesis by (simp add: endswith_def)
qed

text \<open>
  C4. When the buffer's last entry ends with a hyphen and the next non-empty body line
  starts with a lower-case character, the hyphen is dropped and the line is concatenated
  onto that entry; a continuation that starts with an upper-case character is appended
  as an entry of its own. So the body lines "exam-", "ple text" reconstruct to
  "example text", and "Exam-", "PLE" do not merge (they give "Exam- PLE").
\<close>

theorem dehyphenation:
  "(buffer \<noteq> [] \<and> endswith (last buffer) ''-'' \<and> line \<noteq> [] \<and> islower (hd line) \<longrightarrow>
      text_step (paragraphs, buffer) line
        = (paragraphs, butlast buffer @ [butlast (last buffer) @ line])
      \<and> butlast (last buffer) @ [CHR ''-''] = last buffer)
   \<and> (line \<noteq> [] \<and> isupper (hd line) \<longrightarrow>
      text_step (paragraphs, buffer) line = (paragraphs, buffer @ [line]))
   \<and> clause_text [''exam-'', ''ple text''] = ''example text''
   \<and> clause_text [''Exam-'', ''PLE''] = ''Exam- PLE''"
proof -
  have up: "isupper c \<Longrightarrow> \<not> islower c" for c
    by (auto simp: isupper_def islower_def)
  have a: "buffer \<noteq> [] \<and> endswith (last buffer) ''-'' \<and> line \<noteq> [] \<and> islower (hd line) \<longrightarrow>
      text_step (paragraphs, buffer) line
        = (paragraphs, butlast buffer @ [butlast (last buffer) @ line])
      \<and> butlast (last buffer) @ [CHR ''-''] = last buffer"
    by (auto simp: endswith_hyphen dest: append_butlast_last_id)
  have b: "line \<noteq> [] \<and> isupper (hd line) \<longrightarrow>
      text_step (paragraphs, buffer) line = (paragraphs, buffer @ [line])"
    using up by simp
  have c: "clause_text [''exam-'', ''ple text''] = ''example text''"
    by (simp add: clause_text_def text_loop_def endswith_def islower_def strip_def isspace_def)
  have d: "clause_text [''Exam-'', ''PLE''] = ''Exam- PLE''"
    by (simp add: clause_text_def text_loop_def endswith_def islower_def strip_def isspace_def)
  from a b c d show ?thesis by blast
qed

theorem dehyphenation_witness:
  "text_step ([], [''exam-'']) ''ple text'' = ([], [''example text''])
   \<and> text_step ([], [''Exam-'']) ''PLE'' = ([], [''Exam-'', ''PLE''])"
  using dehyphenation [of "[''exam-'']" "''ple text''" "[]"]
        dehyphenation [of "[''Exam-'']" "''PLE''" "[]"]
  by (simp add: endswith_def islower_def isupper_def)

subsection \<open>The noise filter: separator runs, statelessness\<close>

lemmas char_class_defs = isspace_def isdigit_def islower_def isupper_def lower_def

lemmas string_op_defs = strip_def split_ws_def split_on_def startswith_def endswith_def

lemmas skip_defs = should_skip_line_def SKIP_PATTERNS_def prefix_ci_def page_banner_def
  separator_stamp_def en_dash_def bullet_def str_isdigit_def

lemma contains_nonempty: "contains s sub \<Longrightarrow> sub \<noteq> [] \<Longrightarrow> s \<noteq> []"
  by (cases s) auto

text \<open>
  C8, as stated, fails: the text of five commas is non-empty after trimming and is a run
  of five separator characters, and \<^verbatim>\<open>should_skip_line\<close> returns False for it.
\<close>

theorem separator_run_counterexample:
  "strip '',,,,,'' \<noteq> [] \<and> spec_separator_run '',,,,,'' \<and> \<not> should_skip_line '',,,,,''"
  by (simp add: char_class_defs string_op_defs skip_defs spec_separator_run_def
      is_separator_def upt_rec)

text \<open>
  C8, amended. \<^verbatim>\<open>should_skip_line\<close> returns True for every text whose trimmed form
  contains the five characters dash, dash, backtick, backtick, backtick anywhere, or starts
  with two dashes followed by at least five characters out of backtick, apostrophe, comma,
  dot and dash.
\<close>

theorem should_skip_separator_stamp:
  "contains (strip text) [CHR ''-'', CHR ''-'', CHR 0x60, CHR 0x60, CHR 0x60]
     \<or> separator_stamp (strip text) \<Longrightarrow> should_skip_line text"
  by (auto simp: should_skip_line_def SKIP_PATTERNS_def Let_def separator_stamp_def
      startswith_def dest: contains_nonempty)

theorem should_skip_separator_stamp_witness:
  "should_skip_line (''a --'' @ [CHR 0x60, CHR 0x60, CHR 0x60] @ ''b'')
   \<and> should_skip_line ''--,,,,,''"
  using should_skip_separator_stamp [of "''a --'' @ [CHR 0x60, CHR 0x60, CHR 0x60] @ ''b''"]
        should_skip_separator_stamp [of "''--,,,,,''"]
  by (simp add: char_class_defs string_op_defs separator_stamp_def)

lemma sort_chunks_idem: "sort_chunks (sort_chunks l) = sort_chunks l"
  by (simp add: sort_chunks_def sort_key_id_if_sorted)

lemma cleaned_text_sort_chunks: "cleaned_text (sort_chunks l) = cleaned_text l"
  by (simp add: cleaned_text_def line_text_def sort_chunks_idem)

lemma sum_filter_sort_key:
  fixes g :: "'a \<Rightarrow> nat"
  shows "sum_list (map g (filter P (sort_key f xs))) = sum_list (map g (filter P xs))"
proof -
  have "mset (map g (filter P (sort_key f xs))) = mset (map g (filter P xs))"
    by simp
  then have "sum_mset (mset (map g (filter P (sort_key f xs))))
               = sum_mset (mset (map g (filter P xs)))"
    by (rule arg_cong)
  then show ?thesis by (simp only: sum_mset_sum_list)
qed

lemma bold_ratio_sort_chunks: "bold_ratio (sort_chunks l) = bold_ratio l"
  by (simp add: bold_ratio_def sort_chunks_def sum_filter_sort_key)

lemma noise_dropped_sort_chunks: "noise_dropped (sort_chunks l) = noise_dropped l"
  by (simp add: noise_dropped_def looks_like_fragment_def cleaned_text_sort_chunks
      bold_ratio_sort_chunks)

text \<open>
  C9. The noise filter is stateless and idempotent. The only state a verdict touches is
  the chunk order of the line, which \<^verbatim>\<open>Line.text\<close> sorts in place; the verdict on the
  sorted line is the verdict on the line, so repeated calls agree. Filtering the kept
  lines again, before or after that mutation, keeps all of them.
\<close>

theorem noise_filter_idempotent:
  "noise_dropped (sort_chunks l) = noise_dropped l
   \<and> noise_filter (noise_filter ls) = noise_filter ls
   \<and> noise_filter (map sort_chunks (noise_filter ls)) = map sort_chunks (noise_filter ls)"
proof -
  have "filter (\<lambda>l. \<not> noise_dropped l) (map sort_chunks xs)
          = map sort_chunks (filter (\<lambda>l. \<not> noise_dropped l) xs)" for xs
    by (induction xs) (simp_all add: noise_dropped_sort_chunks)
  then show ?thesis
    by (simp add: noise_filter_def noise_dropped_sort_chunks)
qed

theorem noise_filter_idempotent_witness:
  "noise_filter (noise_filter
      [one_chunk_line 1 10 0 50 ''some words'' 11 False,
       one_chunk_line 1 30 0 50 ''This is text.'' 11 False])
    = [one_chunk_line 1 30 0 50 ''This is text.'' 11 False]"
proof -
  have e: "noise_filter
      [one_chunk_line 1 10 0 50 ''some words'' 11 False,
       one_chunk_line 1 30 0 50 ''This is text.'' 11 False]
    = [one_chunk_line 1 30 0 50 ''This is text.'' 11 False]"
    by code_simp
  from noise_filter_idempotent [of "one_chunk_line 1 10 0 50 ''some words'' 11 False"
      "[one_chunk_line 1 10 0 50 ''some words'' 11 False,
        one_chunk_line 1 30 0 50 ''This is text.'' 11 False]"]
  show ?thesis unfolding e by simp
qed

subsection \<open>The spans of the detected headings\<close>

lemma lookahead_span:
  "j \<le> length lines \<Longrightarrow>
   j + (fst (lookahead lines j consumed title_parts) - consumed) \<le> length lines"
proof (induction lines j consumed title_parts rule: lookahead.induct)
  case (1 lines j consumed title_parts)
  show ?case
  proof (cases "j < length lines")
    case False
    then show ?thesis using "1.prems" by (subst lookahead.simps) simp
  next
    case True
    let ?t = "cleaned_text (lines ! j)"
    have a: "?t = [] \<Longrightarrow>
        Suc j + (fst (lookahead lines (j + 1) (consumed + 1) title_parts) - Suc consumed) \<le> length lines"
      using "1.IH"(1) [OF True refl refl] True by simp
    have b: "?t \<noteq> [] \<Longrightarrow> max_font_size (lines ! j) \<ge> 14 \<and> bold_ratio (lines ! j) \<ge> 0.5
        \<Longrightarrow> \<not> heading_re_matches ?t
        \<Longrightarrow> Suc j + (fst (lookahead lines (j + 1) (consumed + 1) (title_parts @ [?t])) - Suc consumed) \<le> length lines"
      using "1.IH"(2) [OF True refl refl] True by simp
    have c: "Suc consumed \<le> fst (lookahead lines (j + 1) (consumed + 1) ps)" for ps
      using lookahead_consumed_ge [of "consumed + 1" lines "j + 1" ps] by simp
    show ?thesis
      using True a b c [of title_parts] c [of "title_parts @ [?t]"]
      by (subst lookahead.simps) (auto simp: Let_def)
  qed
qed

lemma read_title_span:
  "i < length lines \<Longrightarrow> i + fst (read_title lines i remainder) \<le> length lines"
  using lookahead_span [of "i + 1" lines 1 "[]"] lookahead_consumed_ge [of 1 lines "i + 1" "[]"]
  by (auto simp: read_title_def split: prod.splits)

fun spans_ok :: "nat \<Rightarrow> nat \<Rightarrow> Heading list \<Rightarrow> bool" where
  "spans_ok lo n [] = True"
| "spans_ok lo n (h # hs) =
     (lo \<le> line_index h \<and> 1 \<le> line_count h \<and> line_index h + line_count h \<le> n
      \<and> spans_ok (line_index h + line_count h) n hs)"

lemma spans_ok_mono: "spans_ok lo n hs \<Longrightarrow> lo' \<le> lo \<Longrightarrow> spans_ok lo' n hs"
  by (cases hs) auto

lemma find_headings_from_spans: "spans_ok i (length lines) (find_headings_from lines i)"
proof (induction "length lines - i" arbitrary: i rule: less_induct)
  case less
  show ?case
  proof (cases "i < length lines")
    case False
    then show ?thesis by (subst find_headings_from.simps) simp
  next
    case True
    have s: "spans_ok i (length lines) (find_headings_from lines (i + 1))"
      using less [of "i + 1"] True spans_ok_mono [of "Suc i" "length lines" _ i] by simp
    have c: "spans_ok (i + fst (read_title lines i r)) (length lines)
               (find_headings_from lines (i + fst (read_title lines i r)))" for r
      using less [of "i + fst (read_title lines i r)"] read_title_decreases [OF True, of r] by simp
    have c': "spans_ok i (length lines) (find_headings_from lines (i + fst (read_title lines i r)))" for r
      using c [of r] spans_ok_mono by (metis le_add1)
    show ?thesis
      using True s c c' read_title_consumed_ge read_title_span [OF True]
      by (subst find_headings_from.simps) (auto simp: Let_def split: option.splits)
  qed
qed


lemma spans_ok_nth:
  "spans_ok lo n hs \<Longrightarrow> k < length hs \<Longrightarrow>
     lo \<le> line_index (hs ! k) \<and> 1 \<le> line_count (hs ! k)
     \<and> line_index (hs ! k) + line_count (hs ! k) \<le> n
     \<and> (Suc k < length hs \<longrightarrow>
          line_index (hs ! k) + line_count (hs ! k) \<le> line_index (hs ! Suc k))"
proof (induction hs arbitrary: lo k)
  case Nil
  then show ?case by simp
next
  case (Cons h hs)
  show ?case
  proof (cases k)
    case 0
    then show ?thesis using Cons.prems by (cases hs) auto
  next
    case (Suc k')
    then show ?thesis
      using Cons.IH [of "line_index h + line_count h" k'] Cons.prems by auto
  qed
qed

lemma not_heading_re_matches_Nil: "\<not> heading_re_matches []"
  by (simp add: heading_re_matches_def heading_match_def dotted_numeric_def split_on_def)

lemma lookahead_consumed_lines:
  "j \<le> k \<Longrightarrow> k < j + (fst (lookahead lines j consumed title_parts) - consumed) \<Longrightarrow>
   cleaned_text (lines ! k) = []
   \<or> (max_font_size (lines ! k) \<ge> 14 \<and> bold_ratio (lines ! k) \<ge> 0.5
      \<and> \<not> heading_re_matches (cleaned_text (lines ! k)))"
proof (induction lines j consumed title_parts rule: lookahead.induct)
  case (1 lines j consumed title_parts)
  let ?t = "cleaned_text (lines ! j)"
  let ?goal = "cleaned_text (lines ! k) = []
   \<or> (max_font_size (lines ! k) \<ge> 14 \<and> bold_ratio (lines ! k) \<ge> 0.5
      \<and> \<not> heading_re_matches (cleaned_text (lines ! k)))"
  have lt: "j < length lines"
  proof (rule ccontr)
    assume "\<not> j < length lines"
    then have "lookahead lines j consumed title_parts = (consumed, title_parts)"
      by (subst lookahead.simps) simp
    with "1.prems" show False by simp
  qed
  show ?case
  proof (cases "?t = []")
    case True
    then have e: "lookahead lines j consumed title_parts
        = lookahead lines (j + 1) (consumed + 1) title_parts"
      using lt by (subst lookahead.simps) (simp add: Let_def)
    show ?thesis
    proof (cases "k = j")
      case True
      with \<open>?t = []\<close> show ?thesis by simp
    next
      case False
      have "k < j + 1 + (fst (lookahead lines (j + 1) (consumed + 1) title_parts) - (consumed + 1))"
        using "1.prems" e by simp
      then show ?thesis
        using "1.IH"(1) [OF lt refl refl True] False "1.prems"(1) by simp
    qed
  next
    case False
    show ?thesis
    proof (cases "max_font_size (lines ! j) \<ge> 14 \<and> bold_ratio (lines ! j) \<ge> 0.5
        \<and> \<not> heading_re_matches ?t")
      case stop: False
      then have "lookahead lines j consumed title_parts = (consumed, title_parts)"
        using lt False by (subst lookahead.simps) (auto simp: Let_def)
      with "1.prems" show ?thesis by simp
    next
      case go: True
      then have e: "lookahead lines j consumed title_parts
          = lookahead lines (j + 1) (consumed + 1) (title_parts @ [?t])"
        using lt False by (subst lookahead.simps) (simp add: Let_def)
      show ?thesis
      proof (cases "k = j")
        case True
        with go show ?thesis by simp
      next
        case kj: False
        have "k < j + 1 + (fst (lookahead lines (j + 1) (consumed + 1) (title_parts @ [?t]))
                          - (consumed + 1))"
          using "1.prems" e by simp
        then show ?thesis
          using "1.IH"(2) [OF lt refl refl False] go kj "1.prems"(1) by simp
      qed
    qed
  qed
qed

lemma read_title_consumed_lines:
  "i < k \<Longrightarrow> k < i + fst (read_title lines i remainder) \<Longrightarrow>
   cleaned_text (lines ! k) = []
   \<or> (max_font_size (lines ! k) \<ge> 14 \<and> bold_ratio (lines ! k) \<ge> 0.5
      \<and> \<not> heading_re_matches (cleaned_text (lines ! k)))"
  using lookahead_consumed_lines [of "i + 1" k lines 1 "[]"]
  by (auto simp: read_title_def split: prod.splits if_splits)

text \<open>
  C10. In the list \<^verbatim>\<open>find_headings\<close> returns, every heading has a line count of at least
  1 and ends within the line sequence, and each heading ends at or before the start of the
  next one; so the body ranges \<^verbatim>\<open>build_clauses\<close> scans between consecutive headings are
  in bounds and pairwise disjoint.
\<close>

theorem heading_spans_in_bounds_disjoint:
  "\<forall>k < length (find_headings lines).
     1 \<le> line_count (find_headings lines ! k)
     \<and> line_index (find_headings lines ! k) + line_count (find_headings lines ! k) \<le> length lines
     \<and> (Suc k < length (find_headings lines) \<longrightarrow>
          line_index (find_headings lines ! k) + line_count (find_headings lines ! k)
            \<le> line_index (find_headings lines ! Suc k))"
  using spans_ok_nth [OF find_headings_from_spans [of 0 lines]]
  by (simp add: find_headings_def)

theorem heading_spans_in_bounds_disjoint_witness:
  "find_headings
     [one_chunk_line 1 10 0 50 ''4 Safety'' 16 True,
      one_chunk_line 1 30 0 50 ''4.1'' 15 True,
      one_chunk_line 1 50 0 50 ''General'' 15 True,
      one_chunk_line 1 70 0 50 ''Body text.'' 11 False]
   = [\<lparr>heading_identifier = ''4'', heading_title = ''Safety'', line_index = 0, line_count = 1\<rparr>,
      \<lparr>heading_identifier = ''4.1'', heading_title = ''General'', line_index = 1, line_count = 2\<rparr>]
   \<and> (0::nat) + 1 \<le> 1 \<and> (1::nat) + 2 \<le> 4"
proof -
  let ?L = "[one_chunk_line 1 10 0 50 ''4 Safety'' 16 True,
      one_chunk_line 1 30 0 50 ''4.1'' 15 True,
      one_chunk_line 1 50 0 50 ''General'' 15 True,
      one_chunk_line 1 70 0 50 ''Body text.'' 11 False]"
  have e: "find_headings ?L
   = [\<lparr>heading_identifier = ''4'', heading_title = ''Safety'', line_index = 0, line_count = 1\<rparr>,
      \<lparr>heading_identifier = ''4.1'', heading_title = ''General'', line_index = 1, line_count = 2\<rparr>]"
    by code_simp
  from heading_spans_in_bounds_disjoint [of ?L] show ?thesis
    unfolding e by simp
qed

subsection \<open>Candidates without a title\<close>

lemma split_ws_aux_words:
  "w \<in> set (split_ws_aux cur s) \<Longrightarrow> \<forall>c\<in>set cur. \<not> isspace c \<Longrightarrow>
   w \<noteq> [] \<and> (\<forall>c\<in>set w. \<not> isspace c)"
proof (induction s arbitrary: cur)
  case Nil
  then show ?case by (auto split: if_splits)
next
  case (Cons a s)
  show ?case
  proof (cases "isspace a")
    case True
    with Cons.prems have "w = cur \<and> cur \<noteq> [] \<or> w \<in> set (split_ws_aux [] s)"
      by (auto split: if_splits)
    then show ?thesis using Cons.IH [of "[]"] Cons.prems(2) by auto
  next
    case False
    with Cons.prems have "w \<in> set (split_ws_aux (cur @ [a]) s)" by simp
    then show ?thesis using Cons.IH [of "cur @ [a]"] Cons.prems(2) False by auto
  qed
qed

lemma join_Cons_subset: "set x \<subseteq> set (join sep (x # xs))"
  by (cases xs) auto

lemma cleaned_text_nonblank:
  assumes "cleaned_text l \<noteq> []"
  shows "\<exists>c\<in>set (cleaned_text l). \<not> isspace c"
proof (cases "split_ws (line_text l)")
  case Nil
  with assms show ?thesis by (simp add: cleaned_text_def)
next
  case (Cons w ws)
  then have "w \<in> set (split_ws_aux [] (line_text l))" by (simp add: split_ws_def)
  then have w: "w \<noteq> [] \<and> (\<forall>c\<in>set w. \<not> isspace c)"
    using split_ws_aux_words [of w "[]" "line_text l"] by simp
  then obtain c where c: "c \<in> set w" "\<not> isspace c" by (cases w) auto
  have "set w \<subseteq> set (cleaned_text l)"
    using join_Cons_subset [of w "'' ''" ws] Cons by (simp add: cleaned_text_def)
  with c show ?thesis by auto
qed

lemma dropWhile_keeps_nonblank:
  "\<exists>c\<in>set s. \<not> P c \<Longrightarrow> \<exists>c\<in>set (dropWhile P s). \<not> P c"
  by (induction s) auto

lemma strip_nonblank: "\<exists>c\<in>set s. \<not> isspace c \<Longrightarrow> strip s \<noteq> []"
proof -
  assume "\<exists>c\<in>set s. \<not> isspace c"
  then have "\<exists>c\<in>set (rev (dropWhile isspace s)). \<not> isspace c"
    using dropWhile_keeps_nonblank [of s isspace] by simp
  then have "\<exists>c\<in>set (dropWhile isspace (rev (dropWhile isspace s))). \<not> isspace c"
    by (rule dropWhile_keeps_nonblank)
  then obtain c where "c \<in> set (dropWhile isspace (rev (dropWhile isspace s)))" by blast
  then have "0 < length (dropWhile isspace (rev (dropWhile isspace s)))"
    by (rule length_pos_if_in_set)
  then have "0 < length (strip s)" by (simp only: strip_def length_rev)
  then show ?thesis by simp
qed

lemma title_of_parts_nonempty:
  assumes "parts \<noteq> []" and "\<forall>p\<in>set parts. \<exists>c\<in>set p. \<not> isspace c"
  shows "strip (join '' '' parts) \<noteq> []"
proof -
  obtain p ps where e: "parts = p # ps" using assms(1) by (cases parts) auto
  then obtain c where "c \<in> set p" "\<not> isspace c" using assms(2) by auto
  then have "\<exists>c\<in>set (join '' '' parts). \<not> isspace c"
    using join_Cons_subset [of p "'' ''" ps] e by auto
  then show ?thesis by (rule strip_nonblank)
qed

lemma lookahead_parts:
  "\<forall>p\<in>set title_parts. \<exists>c\<in>set p. \<not> isspace c \<Longrightarrow>
   (\<forall>p\<in>set (snd (lookahead lines j consumed title_parts)). \<exists>c\<in>set p. \<not> isspace c)
   \<and> length title_parts \<le> length (snd (lookahead lines j consumed title_parts))"
proof (induction lines j consumed title_parts rule: lookahead.induct)
  case (1 lines j consumed title_parts)
  show ?case
  proof (cases "j < length lines")
    case False
    then show ?thesis using "1.prems" by (subst (1 2) lookahead.simps) simp
  next
    case True
    let ?t = "cleaned_text (lines ! j)"
    note a = "1.IH"(1) [OF True refl refl _ "1.prems"]
    have nb: "?t \<noteq> [] \<Longrightarrow> \<forall>p\<in>set (title_parts @ [?t]). \<exists>c\<in>set p. \<not> isspace c"
      using "1.prems" cleaned_text_nonblank [of "lines ! j"] by auto
    note b = "1.IH"(2) [OF True refl refl _ _ _ nb]
    show ?thesis
      using True a b "1.prems" by (subst (1 2) lookahead.simps) (auto simp: Let_def)
  qed
qed


lemma lookahead_blank:
  "snd (lookahead lines j consumed title_parts) = [] \<Longrightarrow>
   \<forall>p\<in>set title_parts. \<exists>c\<in>set p. \<not> isspace c \<Longrightarrow>
   j \<le> k \<Longrightarrow> k < j + (fst (lookahead lines j consumed title_parts) - consumed) \<Longrightarrow>
   cleaned_text (lines ! k) = []"
proof (induction lines j consumed title_parts rule: lookahead.induct)
  case (1 lines j consumed title_parts)
  let ?t = "cleaned_text (lines ! j)"
  have lt: "j < length lines"
  proof (rule ccontr)
    assume "\<not> j < length lines"
    then have "lookahead lines j consumed title_parts = (consumed, title_parts)"
      by (subst lookahead.simps) simp
    with "1.prems" show False by simp
  qed
  show ?case
  proof (cases "?t = []")
    case True
    then have e: "lookahead lines j consumed title_parts
        = lookahead lines (j + 1) (consumed + 1) title_parts"
      using lt by (subst lookahead.simps) (simp add: Let_def)
    show ?thesis
    proof (cases "k = j")
      case True
      with \<open>?t = []\<close> show ?thesis by simp
    next
      case False
      have "k < j + 1 + (fst (lookahead lines (j + 1) (consumed + 1) title_parts) - (consumed + 1))"
        using "1.prems" e by simp
      moreover have "snd (lookahead lines (j + 1) (consumed + 1) title_parts) = []"
        using "1.prems"(1) e by simp
      ultimately show ?thesis
        using "1.IH"(1) [OF lt refl refl True] False "1.prems"(2,3) by simp
    qed
  next
    case False
    show ?thesis
    proof (cases "max_font_size (lines ! j) \<ge> 14 \<and> bold_ratio (lines ! j) \<ge> 0.5
        \<and> \<not> heading_re_matches ?t")
      case stop: False
      then have "lookahead lines j consumed title_parts = (consumed, title_parts)"
        using lt False by (subst lookahead.simps) (auto simp: Let_def)
      with "1.prems" show ?thesis by simp
    next
      case go: True
      then have e: "lookahead lines j consumed title_parts
          = lookahead lines (j + 1) (consumed + 1) (title_parts @ [?t])"
        using lt False by (subst lookahead.simps) (simp add: Let_def)
      have "\<forall>p\<in>set (title_parts @ [?t]). \<exists>c\<in>set p. \<not> isspace c"
        using "1.prems"(2) cleaned_text_nonblank [OF False] by auto
      then have "length (title_parts @ [?t])
          \<le> length (snd (lookahead lines (j + 1) (consumed + 1) (title_parts @ [?t])))"
        using lookahead_parts by blast
      with "1.prems"(1) e show ?thesis by simp
    qed
  qed
qed

lemma read_title_blank:
  assumes "snd (read_title lines i remainder) = []"
    and "i < k" and "k < i + fst (read_title lines i remainder)"
  shows "cleaned_text (lines ! k) = []"
proof (cases "remainder = []")
  case False
  with assms(1) show ?thesis by (simp add: read_title_def)
next
  case True
  obtain c parts where l: "lookahead lines (i + 1) 1 [] = (c, parts)"
    by (cases "lookahead lines (i + 1) 1 []") auto
  with True have rt: "read_title lines i remainder = (c, strip (join '' '' parts))"
    by (simp add: read_title_def)
  have nb: "\<forall>p\<in>set parts. \<exists>x\<in>set p. \<not> isspace x"
    using lookahead_parts [of "[]" lines "i + 1" 1] l by simp
  have "parts = []"
    using title_of_parts_nonempty [OF _ nb] assms(1) rt by auto
  then have "snd (lookahead lines (i + 1) 1 []) = []" using l by simp
  moreover have "k < i + 1 + (fst (lookahead lines (i + 1) 1 []) - 1)"
    using assms(3) rt l lookahead_consumed_ge [of 1 lines "i + 1" "[]"] by simp
  ultimately show ?thesis
    using lookahead_blank [of lines "i + 1" 1 "[]" k] assms(2) by simp
qed

lemma find_headings_from_blank:
  "i < length lines \<Longrightarrow> cleaned_text (lines ! i) = [] \<Longrightarrow>
   find_headings_from lines i = find_headings_from lines (Suc i)"
  by (subst find_headings_from.simps) (simp add: Let_def)

lemma find_headings_from_skip_blanks:
  "\<forall>k. i \<le> k \<and> k < i + n \<longrightarrow> cleaned_text (lines ! k) = [] \<Longrightarrow> i + n \<le> length lines \<Longrightarrow>
   find_headings_from lines i = find_headings_from lines (i + n)"
proof (induction n arbitrary: i)
  case 0
  then show ?case by simp
next
  case (Suc n)
  have "find_headings_from lines i = find_headings_from lines (Suc i)"
    using Suc.prems by (intro find_headings_from_blank) auto
  also have "\<dots> = find_headings_from lines (Suc i + n)"
    using Suc.prems by (intro Suc.IH) auto
  finally show ?case by simp
qed

lemma heading_match_Nil: "heading_match [] = None"
  by (simp add: heading_match_def dotted_numeric_def split_on_def)

lemma find_headings_from_candidate:
  assumes "i < length lines"
    and "heading_match (cleaned_text (lines ! i)) = Some (ident, group2)"
    and "\<not> (max_font_size (lines ! i) < 14 \<or> bold_ratio (lines ! i) < 0.5)"
    and "read_title lines i (strip (case group2 of None \<Rightarrow> [] | Some g \<Rightarrow> g)) = (consumed, ttl)"
  shows "find_headings_from lines i =
     (if ttl = [] \<and> CHR ''.'' \<notin> set ident then find_headings_from lines (i + consumed)
      else \<lparr>heading_identifier = ident, heading_title = ttl, line_index = i,
             line_count = consumed\<rparr> # find_headings_from lines (i + consumed))"
proof -
  have "cleaned_text (lines ! i) \<noteq> []"
    using assms(2) heading_match_Nil by auto
  then show ?thesis
    using assms by (subst find_headings_from.simps) (simp add: Let_def)
qed

text \<open>
  C5. A heading candidate (a line the scan stands on, whose cleaned text matches the
  heading pattern and which passes the font and bold thresholds) whose identifier has no
  dot and whose title is still empty after the lookahead emits no heading: the scan goes
  on after the lines the candidate consumed, which are the candidate and blank lines only,
  so the result is that of resuming at the next line. A candidate whose identifier has a
  dot is emitted, also with an empty title.
\<close>

theorem bare_number_without_title_discarded:
  assumes "i < length lines"
    and "heading_match (cleaned_text (lines ! i)) = Some (ident, group2)"
    and "\<not> (max_font_size (lines ! i) < 14 \<or> bold_ratio (lines ! i) < 0.5)"
    and "read_title lines i (strip (case group2 of None \<Rightarrow> [] | Some g \<Rightarrow> g)) = (consumed, ttl)"
  shows "(ttl = [] \<and> CHR ''.'' \<notin> set ident \<longrightarrow>
            find_headings_from lines i = find_headings_from lines (i + consumed)
            \<and> find_headings_from lines i = find_headings_from lines (Suc i))
       \<and> (CHR ''.'' \<in> set ident \<longrightarrow>
            find_headings_from lines i =
              \<lparr>heading_identifier = ident, heading_title = ttl, line_index = i,
                line_count = consumed\<rparr> # find_headings_from lines (i + consumed))"
proof -
  note step = find_headings_from_candidate [OF assms]
  have c1: "1 \<le> consumed" using read_title_consumed_ge [of lines i] assms(4)
    by (metis fst_conv)
  have c2: "i + consumed \<le> length lines" using read_title_span [OF assms(1)] assms(4)
    by (metis fst_conv)
  have "find_headings_from lines (Suc i) = find_headings_from lines (i + consumed)" if "ttl = []"
  proof -
    have "cleaned_text (lines ! k) = []" if "Suc i \<le> k" "k < Suc i + (consumed - 1)" for k
    proof (rule read_title_blank [of lines i "strip (case group2 of None \<Rightarrow> [] | Some g \<Rightarrow> g)"])
      show "snd (read_title lines i (strip (case group2 of None \<Rightarrow> [] | Some g \<Rightarrow> g))) = []"
        using assms(4) \<open>ttl = []\<close> by simp
      show "i < k" using that by simp
      show "k < i + fst (read_title lines i (strip (case group2 of None \<Rightarrow> [] | Some g \<Rightarrow> g)))"
        using assms(4) that c1 by simp
    qed
    then have "\<forall>k. Suc i \<le> k \<and> k < Suc i + (consumed - 1) \<longrightarrow> cleaned_text (lines ! k) = []"
      by blast
    then have "find_headings_from lines (Suc i) = find_headings_from lines (Suc i + (consumed - 1))"
      using c1 c2 by (intro find_headings_from_skip_blanks) auto
    then show ?thesis using c1 by simp
  qed
  then show ?thesis using step by auto
qed


theorem bare_number_without_title_discarded_witness:
  "find_headings_from
     [one_chunk_line 1 10 0 50 ''7'' 16 True,
      one_chunk_line 1 30 0 50 ''Body text.'' 11 False,
      one_chunk_line 1 50 0 50 ''7.1'' 16 True] 0
   = find_headings_from
     [one_chunk_line 1 10 0 50 ''7'' 16 True,
      one_chunk_line 1 30 0 50 ''Body text.'' 11 False,
      one_chunk_line 1 50 0 50 ''7.1'' 16 True] (Suc 0)
   \<and> find_headings_from
     [one_chunk_line 1 10 0 50 ''7'' 16 True,
      one_chunk_line 1 30 0 50 ''Body text.'' 11 False,
      one_chunk_line 1 50 0 50 ''7.1'' 16 True] 2
   = [\<lparr>heading_identifier = ''7.1'', heading_title = [], line_index = 2, line_count = 1\<rparr>]"
proof -
  let ?L = "[one_chunk_line 1 10 0 50 ''7'' 16 True,
      one_chunk_line 1 30 0 50 ''Body text.'' 11 False,
      one_chunk_line 1 50 0 50 ''7.1'' 16 True]"
  have a1: "0 < length ?L" by simp
  have a2: "heading_match (cleaned_text (?L ! 0)) = Some (''7'', None)" by code_simp
  have a3: "\<not> (max_font_size (?L ! 0) < 14 \<or> bold_ratio (?L ! 0) < 0.5)" by code_simp
  have a4: "read_title ?L 0 (strip (case None of None \<Rightarrow> [] | Some g \<Rightarrow> g)) = (1, [])"
    by code_simp
  have b1: "2 < length ?L" by simp
  have b2: "heading_match (cleaned_text (?L ! 2)) = Some (''7.1'', None)" by code_simp
  have b3: "\<not> (max_font_size (?L ! 2) < 14 \<or> bold_ratio (?L ! 2) < 0.5)" by code_simp
  have b4: "read_title ?L 2 (strip (case None of None \<Rightarrow> [] | Some g \<Rightarrow> g)) = (1, [])"
    by code_simp
  have b5: "find_headings_from ?L (2 + 1) = []" by code_simp
  from bare_number_without_title_discarded [OF a1 a2 a3 a4]
  have "find_headings_from ?L 0 = find_headings_from ?L (Suc 0)" by simp
  moreover from bare_number_without_title_discarded [OF b1 b2 b3 b4]
  have "find_headings_from ?L 2
     = [\<lparr>heading_identifier = ''7.1'', heading_title = [], line_index = 2, line_count = 1\<rparr>]"
    unfolding b5 by simp
  ultimately show ?thesis by blast
qed

subsection \<open>The entry point\<close>

text \<open>
  C7. \<^verbatim>\<open>extract_pdf_clauses\<close> returns a non-empty list of root clauses, the whole result of
  \<^verbatim>\<open>build_clauses\<close> on a non-empty line sequence, or raises: FileNotFoundError when the
  path is missing, ValueError when the extraction yields no lines, and ValueError when
  lines are produced but no clause is built.
\<close>

theorem extract_pdf_clauses_nonempty_or_error:
  "(extract_pdf_clauses path_exists extracted = Inr result \<longrightarrow>
      fst result \<noteq> [] \<and> path_exists
      \<and> (\<exists>lines. extracted = Extracted lines \<and> lines \<noteq> [] \<and> result = build_clauses lines))
   \<and> (\<not> path_exists \<longrightarrow> extract_pdf_clauses path_exists extracted = Inl FileNotFoundError)
   \<and> (path_exists \<and> extracted = Extracted [] \<longrightarrow>
        extract_pdf_clauses path_exists extracted = Inl (ValueError ''No text extracted from PDF.''))
   \<and> (path_exists \<and> extracted = Extracted lines \<and> lines \<noteq> [] \<and> fst (build_clauses lines) = [] \<longrightarrow>
        extract_pdf_clauses path_exists extracted
          = Inl (ValueError ''No clauses were detected in the document.''))"
  by (cases extracted) (auto simp: extract_pdf_clauses_def Let_def split: if_splits)

theorem extract_pdf_clauses_nonempty_or_error_witness:
  "extract_pdf_clauses False (Extracted []) = Inl FileNotFoundError
   \<and> extract_pdf_clauses True (Extracted []) = Inl (ValueError ''No text extracted from PDF.'')
   \<and> extract_pdf_clauses True (Extracted [one_chunk_line 1 10 0 50 ''Body text.'' 11 False])
       = Inl (ValueError ''No clauses were detected in the document.'')
   \<and> fst (build_clauses [one_chunk_line 1 10 0 50 ''4 Safety'' 16 True]) = [''4'']"
proof -
  have a: "fst (build_clauses [one_chunk_line 1 10 0 50 ''Body text.'' 11 False]) = []"
    by code_simp
  have b: "fst (build_clauses [one_chunk_line 1 10 0 50 ''4 Safety'' 16 True]) = [''4'']"
    by code_simp
  from extract_pdf_clauses_nonempty_or_error [of False "Extracted []" "build_clauses []" "[]"]
       extract_pdf_clauses_nonempty_or_error [of True "Extracted []" "build_clauses []" "[]"]
       extract_pdf_clauses_nonempty_or_error [of True
         "Extracted [one_chunk_line 1 10 0 50 ''Body text.'' 11 False]" "build_clauses []"
         "[one_chunk_line 1 10 0 50 ''Body text.'' 11 False]"]
       a b
  show ?thesis by simp
qed

subsection \<open>The order of the root clauses\<close>

text \<open>
  C3. The root clauses \<^verbatim>\<open>build_clauses\<close> returns are sorted by their identifiers read as
  sequences of integers: the key of "4.2" is below that of "4.10", and the key of "4.9" is
  below that of "4.10", whereas the string "4.2" is not below the string "4.10".
\<close>

theorem roots_sorted_numerically:
  "sorted (map clause_key (fst (build_clauses lines)))
   \<and> clause_key ''4.2'' < clause_key ''4.10''
   \<and> clause_key ''4.9'' < clause_key ''4.10''
   \<and> \<not> (''4.2'' < ''4.10'')"
proof -
  have "sorted (map clause_key (fst (build_clauses lines)))"
    by (simp add: build_clauses_def Let_def)
  moreover have "clause_key ''4.2'' < clause_key ''4.10''" by code_simp
  moreover have "clause_key ''4.9'' < clause_key ''4.10''" by code_simp
  moreover have "\<not> (''4.2'' < ''4.10'')" by code_simp
  ultimately show ?thesis by blast
qed

theorem roots_sorted_numerically_witness:
  "fst (build_clauses
     [one_chunk_line 1 10 0 50 ''4.10 Ten'' 16 True,
      one_chunk_line 1 30 0 50 ''4.9 Nine'' 16 True,
      one_chunk_line 1 50 0 50 ''4.2 Two'' 16 True]) = [''4.2'', ''4.9'', ''4.10'']
   \<and> sorted [clause_key ''4.2'', clause_key ''4.9'', clause_key ''4.10'']"
proof -
  have e: "fst (build_clauses
     [one_chunk_line 1 10 0 50 ''4.10 Ten'' 16 True,
      one_chunk_line 1 30 0 50 ''4.9 Nine'' 16 True,
      one_chunk_line 1 50 0 50 ''4.2 Two'' 16 True]) = [''4.2'', ''4.9'', ''4.10'']"
    by code_simp
  from roots_sorted_numerically [of "[one_chunk_line 1 10 0 50 ''4.10 Ten'' 16 True,
      one_chunk_line 1 30 0 50 ''4.9 Nine'' 16 True,
      one_chunk_line 1 50 0 50 ''4.2 Two'' 16 True]"]
  show ?thesis unfolding e by simp
qed

subsection \<open>Paragraph breaks while a body is populated\<close>

text \<open>
  Where the previous kept line has a position other than 0.0, the marker is appended as
  C6 says: on a page change, or on a vertical gap of more than 18.
\<close>

lemma body_step_marker:
  assumes "\<not> should_skip_line (cleaned_text line)"
    and "\<not> heading_re_matches (cleaned_text line)"
    and "\<not> looks_like_fragment line (cleaned_text line)"
    and "t \<noteq> 0"
  shows "fst (body_step (body, Some t, Some pp) line) =
     (if page line \<noteq> pp \<or> line_top line - t > 18 then body @ [[]] else body)
     @ [cleaned_text line]"
  using assms by (simp add: Let_def float_or_def)

text \<open>
  C6 on the code, at a previous kept line whose position is 0.0 (the top of the page, the
  value \<^verbatim>\<open>max(page_height - y1, 0.0)\<close> clamps to): \<^verbatim>\<open>prev_top or line.top\<close> takes the
  position of the current line instead, the gap is 0, and no marker is appended. Two kept
  lines of page 2 at the positions 0 and 100 reconstruct into one paragraph.
\<close>

theorem paragraph_break_missed_after_top_zero:
  "body_lines (the (snd (build_clauses
     [one_chunk_line 1 700 0 50 ''4 Safety'' 16 True,
      one_chunk_line 2 0 0 50 ''First sentence.'' 11 False,
      one_chunk_line 2 100 0 50 ''Second sentence.'' 11 False]) ''4''))
     = [''First sentence.'', ''Second sentence.'']
   \<and> clause_text [''First sentence.'', ''Second sentence.''] = ''First sentence. Second sentence.''"
  by code_simp

theorem paragraph_break_missed_after_top_zero_witness:
  "clause_text (body_lines (the (snd (build_clauses
     [one_chunk_line 1 700 0 50 ''4 Safety'' 16 True,
      one_chunk_line 2 0 0 50 ''First sentence.'' 11 False,
      one_chunk_line 2 100 0 50 ''Second sentence.'' 11 False]) ''4'')))
     = ''First sentence. Second sentence.''"
  using paragraph_break_missed_after_top_zero by simp

subsection \<open>Parent attachment\<close>

lemma split_on_aux_nonempty: "split_on_aux d cur s \<noteq> []"
  by (induction s arbitrary: cur) auto

lemma join_Cons_nonempty: "ys \<noteq> [] \<Longrightarrow> join sep (x # ys) = x @ sep @ join sep ys"
  by (cases ys) auto

lemma join_split_on_aux: "join [d] (split_on_aux d cur s) = cur @ s"
proof (induction s arbitrary: cur)
  case Nil
  then show ?case by simp
next
  case (Cons c cs)
  show ?case
  proof (cases "c = d")
    case True
    then show ?thesis
      using Cons.IH [of "[]"] by (simp add: join_Cons_nonempty split_on_aux_nonempty)
  next
    case False
    then show ?thesis using Cons.IH [of "cur @ [c]"] by simp
  qed
qed

lemma join_split_on: "join [d] (split_on d s) = s"
  by (simp add: split_on_def join_split_on_aux)

lemma length_split_on_aux: "length (split_on_aux d cur s) = count_list s d + 1"
  by (induction s arbitrary: cur) auto

lemma length_split_on: "length (split_on d s) = count_list s d + 1"
  by (simp add: split_on_def length_split_on_aux)

lemma join_snoc: "xs \<noteq> [] \<Longrightarrow> join sep (xs @ [x]) = join sep xs @ sep @ x"
proof (induction xs)
  case Nil
  then show ?case by simp
next
  case (Cons a xs)
  then show ?case by (cases xs) (auto simp: join_Cons_nonempty)
qed

lemma length_join_butlast:
  assumes "2 \<le> length ps"
  shows "length (join [d] (butlast ps)) < length (join [d] ps)"
proof -
  from assms have ne: "butlast ps \<noteq> []" by (cases ps rule: rev_cases) auto
  from assms have "ps = butlast ps @ [last ps]" by (cases ps rule: rev_cases) auto
  then have "join [d] ps = join [d] (butlast ps) @ [d] @ last ps"
    using join_snoc [OF ne, of "[d]" "last ps"] by simp
  then show ?thesis by simp
qed

lemma count_list_pos: "x \<in> set xs \<Longrightarrow> 0 < count_list xs x"
  by (induction xs) auto

lemma parent_id_shorter:
  assumes "CHR ''.'' \<in> set ident"
  shows "length (parent_id_of ident) < length ident"
proof -
  have "2 \<le> length (split_on CHR ''.'' ident)"
    using count_list_pos [OF assms] by (simp add: length_split_on)
  then have "length (join ''.'' (butlast (split_on CHR ''.'' ident)))
      < length (join ''.'' (split_on CHR ''.'' ident))"
    by (rule length_join_butlast)
  then show ?thesis by (simp add: parent_id_of_def join_split_on)
qed

lemma parent_id_ne: "CHR ''.'' \<in> set ident \<Longrightarrow> parent_id_of ident \<noteq> ident"
  using parent_id_shorter [of ident] by auto

lemma root_filter_all:
  "filter (\<lambda>c. CHR ''.'' \<notin> set c \<or> count_list c CHR ''.'' = length (split_on CHR ''.'' c) - 1) cl = cl"
  by (simp add: length_split_on)


lemma process_heading_eq:
  assumes "snd st (heading_identifier h) = None"
  shows "process_heading lines h e st =
    (let ident = heading_identifier h;
         pid = parent_id_of ident;
         clause = \<lparr>clause_identifier = ident, clause_title = heading_title h,
                    body_lines = scan_body lines (line_index h + line_count h) e, children = []\<rparr>
     in if CHR ''.'' \<in> set ident \<and> snd st pid \<noteq> None
        then (fst st,
              (snd st)(pid \<mapsto> (the (snd st pid))\<lparr>children := children (the (snd st pid)) @ [ident]\<rparr>,
                       ident \<mapsto> clause))
        else (fst st @ [ident], (snd st)(ident \<mapsto> clause)))"
proof (cases "CHR ''.'' \<in> set (heading_identifier h)")
  case False
  then show ?thesis
    by (simp add: process_heading_def Let_def update_clause_def)
next
  case True
  note ne = parent_id_ne [OF True]
  show ?thesis
  proof (cases "snd st (parent_id_of (heading_identifier h))")
    case None
    then show ?thesis using True ne
      by (simp add: process_heading_def Let_def update_clause_def)
  next
    case (Some parent)
    then show ?thesis using True ne
      by (auto simp: process_heading_def Let_def update_clause_def fun_upd_twist)
  qed
qed


text \<open>\<open>ident\<close> is in the \<^verbatim>\<open>children\<close> list of the clause stored under \<open>parent\<close>.\<close>

definition child_of :: "clause_store \<Rightarrow> string \<Rightarrow> string \<Rightarrow> bool" where
  "child_of by_id parent ident =
     (case by_id parent of None \<Rightarrow> False | Some c \<Rightarrow> ident \<in> set (children c))"

text \<open>
  Every root and every child is in the store: an identifier without a clause is attached
  nowhere.
\<close>

definition store_inv :: "string list \<times> clause_store \<Rightarrow> bool" where
  "store_inv st \<longleftrightarrow>
     (\<forall>x\<in>set (fst st). snd st x \<noteq> None) \<and> (\<forall>q x. child_of (snd st) q x \<longrightarrow> snd st x \<noteq> None)"

lemma process_heading_dom:
  assumes "snd st (heading_identifier h) = None"
  shows "snd (process_heading lines h e st) x \<noteq> None
         \<longleftrightarrow> snd st x \<noteq> None \<or> x = heading_identifier h"
  by (simp add: process_heading_eq [OF assms] Let_def)

lemma process_heading_roots:
  assumes "snd st (heading_identifier h) = None"
  shows "fst (process_heading lines h e st) =
     (if CHR ''.'' \<in> set (heading_identifier h)
         \<and> snd st (parent_id_of (heading_identifier h)) \<noteq> None
      then fst st else fst st @ [heading_identifier h])"
  by (simp add: process_heading_eq [OF assms] Let_def)

lemma process_heading_child_of:
  assumes "snd st (heading_identifier h) = None"
  shows "child_of (snd (process_heading lines h e st)) q x \<longleftrightarrow>
     (q \<noteq> heading_identifier h \<and> child_of (snd st) q x)
     \<or> (x = heading_identifier h \<and> q = parent_id_of (heading_identifier h)
        \<and> CHR ''.'' \<in> set (heading_identifier h) \<and> snd st q \<noteq> None)"
  using assms parent_id_ne [of "heading_identifier h"]
  by (auto simp: process_heading_eq [OF assms] Let_def child_of_def split: option.splits)

lemma process_heading_inv:
  assumes "snd st (heading_identifier h) = None" and "store_inv st"
  shows "store_inv (process_heading lines h e st)"
  using assms(2)
  unfolding store_inv_def process_heading_dom [OF assms(1)] process_heading_roots [OF assms(1)]
    process_heading_child_of [OF assms(1)]
  by auto

lemma build_loop_inv: "store_inv st \<Longrightarrow> store_inv (build_loop lines hs st)"
proof (induction hs arbitrary: st)
  case Nil
  then show ?case by simp
next
  case (Cons h rest)
  show ?case
  proof (cases "snd st (heading_identifier h) = None")
    case True
    then show ?thesis
      using Cons.IH [OF process_heading_inv [OF True Cons.prems]] by simp
  next
    case False
    then show ?thesis using Cons.IH [OF Cons.prems] by simp
  qed
qed

lemma build_loop_stable:
  "snd st x \<noteq> None \<Longrightarrow>
   snd (build_loop lines hs st) x \<noteq> None
   \<and> (x \<in> set (fst (build_loop lines hs st)) \<longleftrightarrow> x \<in> set (fst st))
   \<and> (\<forall>q. child_of (snd (build_loop lines hs st)) q x \<longleftrightarrow> child_of (snd st) q x)"
proof (induction hs arbitrary: st)
  case Nil
  then show ?case by simp
next
  case (Cons h rest)
  show ?case
  proof (cases "snd st (heading_identifier h) = None")
    case False
    then show ?thesis using Cons.IH [OF Cons.prems] by simp
  next
    case True
    let ?st1 = "process_heading lines h
        (case rest of [] \<Rightarrow> length lines | next_heading # _ \<Rightarrow> line_index next_heading) st"
    have ne: "x \<noteq> heading_identifier h" using True Cons.prems by auto
    have d: "snd ?st1 x \<noteq> None"
      using Cons.prems process_heading_dom [OF True, of lines _ x] by blast
    have r: "x \<in> set (fst ?st1) \<longleftrightarrow> x \<in> set (fst st)"
      using ne by (simp add: process_heading_roots [OF True])
    have nc: "\<not> child_of (snd st) (heading_identifier h) x"
      using True by (simp add: child_of_def)
    have c: "child_of (snd ?st1) q x \<longleftrightarrow> child_of (snd st) q x" for q
      using ne nc process_heading_child_of [OF True, of lines _ q x] by blast
    show ?thesis
      using Cons.IH [OF d] r c True by simp
  qed
qed


text \<open>
  Where the clause \<open>x\<close> hangs, given whether its parent identifier had a clause when \<open>x\<close>
  was created.
\<close>

definition attached_as :: "bool \<Rightarrow> string list \<times> clause_store \<Rightarrow> string \<Rightarrow> bool" where
  "attached_as seen st x \<longleftrightarrow>
     (seen \<longrightarrow> child_of (snd st) (parent_id_of x) x \<and> x \<notin> set (fst st))
     \<and> (\<not> seen \<longrightarrow> x \<in> set (fst st))
     \<and> (\<forall>q. child_of (snd st) q x \<longrightarrow> q = parent_id_of x)"

lemma build_loop_attachment:
  assumes "store_inv st" and "k < length hs"
    and "CHR ''.'' \<in> set (heading_identifier (hs ! k))"
    and "snd st (heading_identifier (hs ! k)) = None"
    and "heading_identifier (hs ! k) \<notin> heading_identifier ` set (take k hs)"
  shows "attached_as
           (snd st (parent_id_of (heading_identifier (hs ! k))) \<noteq> None
            \<or> parent_id_of (heading_identifier (hs ! k)) \<in> heading_identifier ` set (take k hs))
           (build_loop lines hs st) (heading_identifier (hs ! k))"
  using assms
proof (induction hs arbitrary: k st)
  case Nil
  then show ?case by simp
next
  case (Cons h rest)
  let ?e = "case rest of [] \<Rightarrow> length lines | next_heading # _ \<Rightarrow> line_index next_heading"
  let ?st1 = "process_heading lines h ?e st"
  show ?case
  proof (cases k)
    case 0
    let ?x = "heading_identifier h"
    let ?p = "parent_id_of ?x"
    from 0 Cons.prems have new: "snd st ?x = None" and dot: "CHR ''.'' \<in> set ?x" by simp_all
    have loop: "build_loop lines (h # rest) st = build_loop lines rest ?st1"
      using new by simp
    have inv_roots: "?x \<notin> set (fst st)"
      using Cons.prems(1) new unfolding store_inv_def by blast
    have inv_child: "\<not> child_of (snd st) q ?x" for q
      using Cons.prems(1) new unfolding store_inv_def by blast
    have d1: "snd ?st1 ?x \<noteq> None"
      using process_heading_dom [OF new, of lines ?e ?x] by blast
    note stable = build_loop_stable [OF d1, of lines rest]
    have r1: "?x \<in> set (fst ?st1) \<longleftrightarrow> snd st ?p = None"
      using inv_roots dot by (simp add: process_heading_roots [OF new])
    have c1: "child_of (snd ?st1) q ?x \<longleftrightarrow> q = ?p \<and> snd st ?p \<noteq> None" for q
      using inv_child [of q] dot process_heading_child_of [OF new, of lines ?e q ?x] by blast
    have "attached_as (snd st ?p \<noteq> None) (build_loop lines rest ?st1) ?x"
      unfolding attached_as_def using stable r1 c1 by blast
    then show ?thesis
      using 0 unfolding loop by simp
  next
    case (Suc k')
    let ?x = "heading_identifier (rest ! k')"
    let ?p = "parent_id_of ?x"
    let ?S = "heading_identifier ` set (take k' rest)"
    from Suc Cons.prems have k': "k' < length rest" and dot: "CHR ''.'' \<in> set ?x"
      and new: "snd st ?x = None" and ne: "?x \<noteq> heading_identifier h"
      and first: "?x \<notin> ?S"
      by auto
    have nth: "(h # rest) ! k = rest ! k'" using Suc by simp
    have tk: "heading_identifier ` set (take k (h # rest)) = insert (heading_identifier h) ?S"
      using Suc by simp
    show ?thesis
    proof (cases "snd st (heading_identifier h) = None")
      case False
      then have loop: "build_loop lines (h # rest) st = build_loop lines rest st" by simp
      have seen: "(snd st ?p \<noteq> None \<or> ?p \<in> insert (heading_identifier h) ?S)
          \<longleftrightarrow> (snd st ?p \<noteq> None \<or> ?p \<in> ?S)"
        using False by auto
      show ?thesis
        unfolding loop nth tk seen
        by (rule Cons.IH [OF Cons.prems(1) k' dot new first])
    next
      case True
      then have loop: "build_loop lines (h # rest) st = build_loop lines rest ?st1" by simp
      have inv1: "store_inv ?st1" by (rule process_heading_inv [OF True Cons.prems(1)])
      have new1: "snd ?st1 ?x = None"
        using new ne process_heading_dom [OF True, of lines ?e ?x] by blast
      have seen: "(snd st ?p \<noteq> None \<or> ?p \<in> insert (heading_identifier h) ?S)
          \<longleftrightarrow> (snd ?st1 ?p \<noteq> None \<or> ?p \<in> ?S)"
        using process_heading_dom [OF True, of lines ?e ?p] by auto
      show ?thesis
        unfolding loop nth tk seen
        by (rule Cons.IH [OF inv1 k' dot new1 first])
    qed
  qed
qed


lemma store_inv_empty: "store_inv ([], Map.empty)"
  by (simp add: store_inv_def child_of_def)

lemma build_clauses_roots:
  "set (fst (build_clauses lines)) = set (fst (build_loop lines (find_headings lines) ([], Map.empty)))"
  by (simp add: build_clauses_def Let_def length_split_on)

lemma build_clauses_store:
  "snd (build_clauses lines) = snd (build_loop lines (find_headings lines) ([], Map.empty))"
  by (simp add: build_clauses_def Let_def)

text \<open>
  C2. For the first heading with a dotted identifier (the one a clause is built for): if
  the identifier without its last dot-segment is the identifier of an earlier heading,
  that is, of a clause already created, the clause is a child of that clause and not a
  root; otherwise it is a root. It is a child of no clause under any other identifier,
  such as a shorter prefix.
\<close>

theorem dotted_clause_attached_to_exact_parent:
  assumes "k < length (find_headings lines)"
    and "ident = heading_identifier (find_headings lines ! k)"
    and "CHR ''.'' \<in> set ident"
    and "ident \<notin> heading_identifier ` set (take k (find_headings lines))"
  shows "(parent_id_of ident \<in> heading_identifier ` set (take k (find_headings lines)) \<longrightarrow>
            child_of (snd (build_clauses lines)) (parent_id_of ident) ident
            \<and> ident \<notin> set (fst (build_clauses lines)))
       \<and> (parent_id_of ident \<notin> heading_identifier ` set (take k (find_headings lines)) \<longrightarrow>
            ident \<in> set (fst (build_clauses lines)))
       \<and> (\<forall>q. child_of (snd (build_clauses lines)) q ident \<longrightarrow> q = parent_id_of ident)"
proof -
  have "attached_as
          (Map.empty (parent_id_of ident) \<noteq> None
           \<or> parent_id_of ident \<in> heading_identifier ` set (take k (find_headings lines)))
          (build_loop lines (find_headings lines) ([], Map.empty)) ident"
    using build_loop_attachment [OF store_inv_empty assms(1), of lines] assms(2,3,4) by simp
  then show ?thesis
    unfolding attached_as_def build_clauses_roots build_clauses_store by simp
qed

theorem dotted_clause_attached_to_exact_parent_witness:
  "''3.2.1'' \<in> set (fst (build_clauses
      [one_chunk_line 1 10 0 50 ''3 Three'' 16 True,
       one_chunk_line 1 30 0 50 ''3.2.1 Deep'' 16 True,
       one_chunk_line 1 50 0 50 ''3.1 One'' 16 True,
       one_chunk_line 1 70 0 50 ''3.1.1 Sub'' 16 True]))
   \<and> \<not> child_of (snd (build_clauses
      [one_chunk_line 1 10 0 50 ''3 Three'' 16 True,
       one_chunk_line 1 30 0 50 ''3.2.1 Deep'' 16 True,
       one_chunk_line 1 50 0 50 ''3.1 One'' 16 True,
       one_chunk_line 1 70 0 50 ''3.1.1 Sub'' 16 True])) ''3'' ''3.2.1''
   \<and> child_of (snd (build_clauses
      [one_chunk_line 1 10 0 50 ''3 Three'' 16 True,
       one_chunk_line 1 30 0 50 ''3.2.1 Deep'' 16 True,
       one_chunk_line 1 50 0 50 ''3.1 One'' 16 True,
       one_chunk_line 1 70 0 50 ''3.1.1 Sub'' 16 True])) ''3.1'' ''3.1.1''
   \<and> ''3.1.1'' \<notin> set (fst (build_clauses
      [one_chunk_line 1 10 0 50 ''3 Three'' 16 True,
       one_chunk_line 1 30 0 50 ''3.2.1 Deep'' 16 True,
       one_chunk_line 1 50 0 50 ''3.1 One'' 16 True,
       one_chunk_line 1 70 0 50 ''3.1.1 Sub'' 16 True]))"
proof -
  let ?L = "[one_chunk_line 1 10 0 50 ''3 Three'' 16 True,
       one_chunk_line 1 30 0 50 ''3.2.1 Deep'' 16 True,
       one_chunk_line 1 50 0 50 ''3.1 One'' 16 True,
       one_chunk_line 1 70 0 50 ''3.1.1 Sub'' 16 True]"
  have e: "find_headings ?L =
    [\<lparr>heading_identifier = ''3'', heading_title = ''Three'', line_index = 0, line_count = 1\<rparr>,
     \<lparr>heading_identifier = ''3.2.1'', heading_title = ''Deep'', line_index = 1, line_count = 1\<rparr>,
     \<lparr>heading_identifier = ''3.1'', heading_title = ''One'', line_index = 2, line_count = 1\<rparr>,
     \<lparr>heading_identifier = ''3.1.1'', heading_title = ''Sub'', line_index = 3, line_count = 1\<rparr>]"
    by code_simp
  have p1: "parent_id_of ''3.2.1'' = ''3.2''" by code_simp
  have p2: "parent_id_of ''3.1.1'' = ''3.1''" by code_simp
  from dotted_clause_attached_to_exact_parent [of 1 ?L "''3.2.1''"]
  have a: "''3.2.1'' \<in> set (fst (build_clauses ?L))
      \<and> (\<forall>q. child_of (snd (build_clauses ?L)) q ''3.2.1'' \<longrightarrow> q = ''3.2'')"
    unfolding e p1 by simp
  from dotted_clause_attached_to_exact_parent [of 3 ?L "''3.1.1''"]
  have b: "child_of (snd (build_clauses ?L)) ''3.1'' ''3.1.1''
      \<and> ''3.1.1'' \<notin> set (fst (build_clauses ?L))"
    unfolding e p2 by simp
  from a have "\<not> child_of (snd (build_clauses ?L)) ''3'' ''3.2.1''" by auto
  with a b show ?thesis by blast
qed

subsection \<open>Heading-like lines below the thresholds\<close>

lemma find_headings_from_not_candidate:
  assumes "i < length lines"
    and "\<not> heading_re_matches (cleaned_text (lines ! i))
         \<or> max_font_size (lines ! i) < 14 \<or> bold_ratio (lines ! i) < 0.5"
  shows "find_headings_from lines i = find_headings_from lines (Suc i)"
  using assms
  by (subst find_headings_from.simps)
     (auto simp: Let_def heading_re_matches_def split: option.splits)

lemma find_headings_from_span_lines:
  "h \<in> set (find_headings_from lines i) \<Longrightarrow>
   line_index h \<le> k \<Longrightarrow> k < line_index h + line_count h \<Longrightarrow>
   heading_re_matches (cleaned_text (lines ! k)) \<Longrightarrow>
   max_font_size (lines ! k) \<ge> 14 \<and> bold_ratio (lines ! k) \<ge> 0.5"
proof (induction "length lines - i" arbitrary: i rule: less_induct)
  case less
  have lt: "i < length lines"
  proof (rule ccontr)
    assume "\<not> i < length lines"
    then have "find_headings_from lines i = []" by (subst find_headings_from.simps) simp
    with less.prems(1) show False by simp
  qed
  show ?case
  proof (cases "\<not> heading_re_matches (cleaned_text (lines ! i))
         \<or> max_font_size (lines ! i) < 14 \<or> bold_ratio (lines ! i) < 0.5")
    case True
    then have "h \<in> set (find_headings_from lines (Suc i))"
      using find_headings_from_not_candidate [OF lt] less.prems(1) by simp
    then show ?thesis
      using less.hyps [of "Suc i"] lt less.prems(2,3,4) by simp
  next
    case False
    then obtain ident group2 where m: "heading_match (cleaned_text (lines ! i)) = Some (ident, group2)"
      by (auto simp: heading_re_matches_def)
    from False have prom: "\<not> (max_font_size (lines ! i) < 14 \<or> bold_ratio (lines ! i) < 0.5)"
      by simp
    let ?r = "strip (case group2 of None \<Rightarrow> [] | Some g \<Rightarrow> g)"
    obtain consumed ttl where rt: "read_title lines i ?r = (consumed, ttl)"
      by (cases "read_title lines i ?r") auto
    note step = find_headings_from_candidate [OF lt m prom rt]
    have c: "consumed = fst (read_title lines i ?r)" using rt by simp
    have dec: "length lines - (i + consumed) < length lines - i"
      using read_title_decreases [OF lt, of ?r] c by simp
    from less.prems(1) step
    consider (new) "h = \<lparr>heading_identifier = ident, heading_title = ttl, line_index = i,
                          line_count = consumed\<rparr>"
      | (later) "h \<in> set (find_headings_from lines (i + consumed))"
      by (auto split: if_splits)
    then show ?thesis
    proof cases
      case later
      then show ?thesis using less.hyps [OF dec] less.prems(2,3,4) by simp
    next
      case new
      show ?thesis
      proof (cases "k = i")
        case True
        with prom show ?thesis by simp
      next
        case False
        with new less.prems(2,3) have "i < k" "k < i + fst (read_title lines i ?r)"
          using c by simp_all
        then show ?thesis
          using read_title_consumed_lines [of i k lines ?r] less.prems(4)
            not_heading_re_matches_Nil by auto
      qed
    qed
  qed
qed

text \<open>
  C1, amended. A line whose cleaned text matches the heading pattern but whose largest
  font size is below 14 or whose bold ratio is below 0.5 lies in the span of no detected
  heading: it starts none and is consumed into the title of none. When the body loop of
  the clause tree builder reaches it, the loop passes over it, because it matches the
  heading pattern again: nothing is appended to the clause's body lines, and the previous
  kept position and page stay as they were.
\<close>

theorem unprominent_heading_line_skipped:
  assumes "k < length lines"
    and "heading_re_matches (cleaned_text (lines ! k))"
    and "max_font_size (lines ! k) < 14 \<or> bold_ratio (lines ! k) < 0.5"
  shows "(\<forall>h \<in> set (find_headings lines).
            \<not> (line_index h \<le> k \<and> k < line_index h + line_count h))
       \<and> body_step st (lines ! k) = st"
proof -
  have "\<not> (line_index h \<le> k \<and> k < line_index h + line_count h)"
    if "h \<in> set (find_headings lines)" for h
    using find_headings_from_span_lines [of h lines 0 k] that assms(2,3)
    by (auto simp: find_headings_def)
  moreover have "body_step st (lines ! k) = st"
    using assms(2) by (cases st) (auto simp: Let_def)
  ultimately show ?thesis by blast
qed

text \<open>
  C1, as stated, fails. Between the detected headings "4 Safety" and "5 Next" stands the
  line "4.1 Scopes" with font size 12 and bold ratio 0.2. No heading is emitted for it and
  the noise filter does not drop it, yet it is not appended to the body of clause 4,
  which stays empty.
\<close>

theorem heading_like_body_line_counterexample:
  "cleaned_text ([one_chunk_line 1 10 0 50 ''4 Safety'' 16 True,
      \<lparr>page = 1, line_top = 30,
        chunks = [\<lparr>chunk_page = 1, chunk_top = 30, left = 0, width = 8,
                    chunk_text = ''4.'', font_size = 12, is_bold = True\<rparr>,
                  \<lparr>chunk_page = 1, chunk_top = 30, left = 8, width = 40,
                    chunk_text = ''1 Scopes'', font_size = 12, is_bold = False\<rparr>]\<rparr>,
      one_chunk_line 1 50 0 50 ''5 Next'' 16 True] ! 1) = ''4.1 Scopes''
   \<and> heading_re_matches (cleaned_text ([one_chunk_line 1 10 0 50 ''4 Safety'' 16 True,
      \<lparr>page = 1, line_top = 30,
        chunks = [\<lparr>chunk_page = 1, chunk_top = 30, left = 0, width = 8,
                    chunk_text = ''4.'', font_size = 12, is_bold = True\<rparr>,
                  \<lparr>chunk_page = 1, chunk_top = 30, left = 8, width = 40,
                    chunk_text = ''1 Scopes'', font_size = 12, is_bold = False\<rparr>]\<rparr>,
      one_chunk_line 1 50 0 50 ''5 Next'' 16 True] ! 1))
   \<and> max_font_size ([one_chunk_line 1 10 0 50 ''4 Safety'' 16 True,
      \<lparr>page = 1, line_top = 30,
        chunks = [\<lparr>chunk_page = 1, chunk_top = 30, left = 0, width = 8,
                    chunk_text = ''4.'', font_size = 12, is_bold = True\<rparr>,
                  \<lparr>chunk_page = 1, chunk_top = 30, left = 8, width = 40,
                    chunk_text = ''1 Scopes'', font_size = 12, is_bold = False\<rparr>]\<rparr>,
      one_chunk_line 1 50 0 50 ''5 Next'' 16 True] ! 1) = 12 \<and> bold_ratio ([one_chunk_line 1 10 0 50 ''4 Safety'' 16 True,
      \<lparr>page = 1, line_top = 30,
        chunks = [\<lparr>chunk_page = 1, chunk_top = 30, left = 0, width = 8,
                    chunk_text = ''4.'', font_size = 12, is_bold = True\<rparr>,
                  \<lparr>chunk_page = 1, chunk_top = 30, left = 8, width = 40,
                    chunk_text = ''1 Scopes'', font_size = 12, is_bold = False\<rparr>]\<rparr>,
      one_chunk_line 1 50 0 50 ''5 Next'' 16 True] ! 1) = 1 / 5
   \<and> map line_index (find_headings
     [one_chunk_line 1 10 0 50 ''4 Safety'' 16 True,
      \<lparr>page = 1, line_top = 30,
        chunks = [\<lparr>chunk_page = 1, chunk_top = 30, left = 0, width = 8,
                    chunk_text = ''4.'', font_size = 12, is_bold = True\<rparr>,
                  \<lparr>chunk_page = 1, chunk_top = 30, left = 8, width = 40,
                    chunk_text = ''1 Scopes'', font_size = 12, is_bold = False\<rparr>]\<rparr>,
      one_chunk_line 1 50 0 50 ''5 Next'' 16 True]) = [0, 2]
   \<and> \<not> noise_dropped ([one_chunk_line 1 10 0 50 ''4 Safety'' 16 True,
      \<lparr>page = 1, line_top = 30,
        chunks = [\<lparr>chunk_page = 1, chunk_top = 30, left = 0, width = 8,
                    chunk_text = ''4.'', font_size = 12, is_bold = True\<rparr>,
                  \<lparr>chunk_page = 1, chunk_top = 30, left = 8, width = 40,
                    chunk_text = ''1 Scopes'', font_size = 12, is_bold = False\<rparr>]\<rparr>,
      one_chunk_line 1 50 0 50 ''5 Next'' 16 True] ! 1)
   \<and> body_lines (the (snd (build_clauses
     [one_chunk_line 1 10 0 50 ''4 Safety'' 16 True,
      \<lparr>page = 1, line_top = 30,
        chunks = [\<lparr>chunk_page = 1, chunk_top = 30, left = 0, width = 8,
                    chunk_text = ''4.'', font_size = 12, is_bold = True\<rparr>,
                  \<lparr>chunk_page = 1, chunk_top = 30, left = 8, width = 40,
                    chunk_text = ''1 Scopes'', font_size = 12, is_bold = False\<rparr>]\<rparr>,
      one_chunk_line 1 50 0 50 ''5 Next'' 16 True]) ''4'')) = []"
  by code_simp

theorem unprominent_heading_line_skipped_witness:
  "body_step ([], None, None) ([one_chunk_line 1 10 0 50 ''4 Safety'' 16 True,
      \<lparr>page = 1, line_top = 30,
        chunks = [\<lparr>chunk_page = 1, chunk_top = 30, left = 0, width = 8,
                    chunk_text = ''4.'', font_size = 12, is_bold = True\<rparr>,
                  \<lparr>chunk_page = 1, chunk_top = 30, left = 8, width = 40,
                    chunk_text = ''1 Scopes'', font_size = 12, is_bold = False\<rparr>]\<rparr>,
      one_chunk_line 1 50 0 50 ''5 Next'' 16 True] ! 1) = ([], None, None)"
proof -
  have h1: "1 < length [one_chunk_line 1 10 0 50 ''4 Safety'' 16 True,
      \<lparr>page = 1, line_top = 30,
        chunks = [\<lparr>chunk_page = 1, chunk_top = 30, left = 0, width = 8,
                    chunk_text = ''4.'', font_size = 12, is_bold = True\<rparr>,
                  \<lparr>chunk_page = 1, chunk_top = 30, left = 8, width = 40,
                    chunk_text = ''1 Scopes'', font_size = 12, is_bold = False\<rparr>]\<rparr>,
      one_chunk_line 1 50 0 50 ''5 Next'' 16 True]" by simp
  have h2: "heading_re_matches (cleaned_text ([one_chunk_line 1 10 0 50 ''4 Safety'' 16 True,
      \<lparr>page = 1, line_top = 30,
        chunks = [\<lparr>chunk_page = 1, chunk_top = 30, left = 0, width = 8,
                    chunk_text = ''4.'', font_size = 12, is_bold = True\<rparr>,
                  \<lparr>chunk_page = 1, chunk_top = 30, left = 8, width = 40,
                    chunk_text = ''1 Scopes'', font_size = 12, is_bold = False\<rparr>]\<rparr>,
      one_chunk_line 1 50 0 50 ''5 Next'' 16 True] ! 1))" by code_simp
  have h3: "max_font_size ([one_chunk_line 1 10 0 50 ''4 Safety'' 16 True,
      \<lparr>page = 1, line_top = 30,
        chunks = [\<lparr>chunk_page = 1, chunk_top = 30, left = 0, width = 8,
                    chunk_text = ''4.'', font_size = 12, is_bold = True\<rparr>,
                  \<lparr>chunk_page = 1, chunk_top = 30, left = 8, width = 40,
                    chunk_text = ''1 Scopes'', font_size = 12, is_bold = False\<rparr>]\<rparr>,
      one_chunk_line 1 50 0 50 ''5 Next'' 16 True] ! 1) < 14 \<or> bold_ratio ([one_chunk_line 1 10 0 50 ''4 Safety'' 16 True,
      \<lparr>page = 1, line_top = 30,
        chunks = [\<lparr>chunk_page = 1, chunk_top = 30, left = 0, width = 8,
                    chunk_text = ''4.'', font_size = 12, is_bold = True\<rparr>,
                  \<lparr>chunk_page = 1, chunk_top = 30, left = 8, width = 40,
                    chunk_text = ''1 Scopes'', font_size = 12, is_bold = False\<rparr>]\<rparr>,
      one_chunk_line 1 50 0 50 ''5 Next'' 16 True] ! 1) < 0.5" by code_simp
  from unprominent_heading_line_skipped [OF h1 h2 h3, of "([], None, None)"]
  show ?thesis by blast
qed

subsection \<open>Identifiers are dotted numbers\<close>

text \<open>
  Every identifier \<^verbatim>\<open>find_headings\<close> returns is group 1 of a match: non-empty runs of
  digits separated by dots. So each part the sort key of \<^verbatim>\<open>build_clauses\<close> converts with
  \<^verbatim>\<open>int\<close> is a digit string.
\<close>

lemma heading_match_dotted_numeric:
  "heading_match s = Some (ident, g) \<Longrightarrow> dotted_numeric ident"
  by (auto simp: heading_match_def Let_def split: if_splits)

lemma find_headings_from_identifiers:
  "h \<in> set (find_headings_from lines i) \<Longrightarrow> dotted_numeric (heading_identifier h)"
proof (induction "length lines - i" arbitrary: i rule: less_induct)
  case less
  have lt: "i < length lines"
  proof (rule ccontr)
    assume "\<not> i < length lines"
    then have "find_headings_from lines i = []" by (subst find_headings_from.simps) simp
    with less.prems(1) show False by simp
  qed
  show ?case
  proof (cases "\<not> heading_re_matches (cleaned_text (lines ! i))
         \<or> max_font_size (lines ! i) < 14 \<or> bold_ratio (lines ! i) < 0.5")
    case True
    then have "h \<in> set (find_headings_from lines (Suc i))"
      using find_headings_from_not_candidate [OF lt] less.prems(1) by simp
    then show ?thesis
      using less.hyps [of "Suc i"] lt by simp
  next
    case False
    then obtain ident group2 where m: "heading_match (cleaned_text (lines ! i)) = Some (ident, group2)"
      by (auto simp: heading_re_matches_def)
    from False have prom: "\<not> (max_font_size (lines ! i) < 14 \<or> bold_ratio (lines ! i) < 0.5)"
      by simp
    let ?r = "strip (case group2 of None \<Rightarrow> [] | Some g \<Rightarrow> g)"
    obtain consumed ttl where rt: "read_title lines i ?r = (consumed, ttl)"
      by (cases "read_title lines i ?r") auto
    note step = find_headings_from_candidate [OF lt m prom rt]
    have dec: "length lines - (i + consumed) < length lines - i"
      using read_title_decreases [OF lt, of ?r] rt by simp
    from less.prems(1) step
    consider (new) "h = \<lparr>heading_identifier = ident, heading_title = ttl, line_index = i,
                          line_count = consumed\<rparr>"
      | (later) "h \<in> set (find_headings_from lines (i + consumed))"
      by (auto split: if_splits)
    then show ?thesis
    proof cases
      case later
      then show ?thesis using less.hyps [OF dec] by simp
    next
      case new
      then show ?thesis using heading_match_dotted_numeric [OF m] by simp
    qed
  qed
qed

lemma find_headings_identifiers:
  "h \<in> set (find_headings lines) \<Longrightarrow> dotted_numeric (heading_identifier h)"
  using find_headings_from_identifiers [of h lines 0] by (simp add: find_headings_def)

end
